theory Spec2Isabelle
  imports Main "HOL-Library.Word"
begin

unbundle bit_operations_syntax

section \<open>Failures\<close>

text \<open>
  The C++ sources fail in four ways, all kept as values of one type:
  \<^item> \<open>throw std::runtime_error(msg)\<close> (the factory's \<open>"Unsupported format"\<close>);
  \<^item> \<open>std::invalid_argument\<close> and \<open>std::out_of_range\<close>, thrown by \<open>std::stoull\<close>;
  \<^item> a failed \<open>assert\<close> / \<open>SPARROW_ASSERT\<close>;
  \<^item> an access outside a container or buffer, which is undefined behaviour in C++
    and is kept here as a failure so that no theorem can rest on it.
\<close>

datatype exn =
    runtime_error string
  | invalid_argument
  | out_of_range
  | assertion_failed
  | out_of_bounds

type_synonym byte = "8 word"

section \<open>The validity bitmap: \<open>dynamic_bitset<std::uint8_t>\<close>\<close>

text \<open>
  Source: \<open>src/include/sparrow/any_data_utils.hpp\<close>, lines 444 to 630 (the header of
  \<open>dynamic_bitset\<close> and \<open>ensure_validity_bitmap\<close>).

  \<open>dynamic_bitset<T>\<close> derives from \<open>dynamic_bitset_base<buffer<T>>\<close>, whose three data
  members are the block storage, the number of bits and the cached null count; the
  constructors of \<open>dynamic_bitset\<close> pass exactly these three to the base.
  \<open>validity_bitmap\<close> is \<open>dynamic_bitset<std::uint8_t>\<close>: blocks are bytes.
\<close>

record dynamic_bitset =
  m_buffer :: "byte list"
  m_size :: nat
  m_null_count :: nat

type_synonym validity_bitmap = dynamic_bitset

text \<open>
  Modelled from the spec: the accessors \<open>size()\<close> and \<open>null_count()\<close> of the absent base
  class \<open>dynamic_bitset_base\<close>; they return the two members (``\<open>null_count()\<close> O(1)'').
\<close>

definition size_bitset :: "dynamic_bitset \<Rightarrow> nat" where
  "size_bitset bm = m_size bm"

definition null_count :: "dynamic_bitset \<Rightarrow> nat" where
  "null_count bm = m_null_count bm"

text \<open>
  Modelled from the spec: the block layout of the absent base class
  \<open>dynamic_bitset_base\<close> (\<open>compute_block_count\<close>, \<open>block_index\<close>, \<open>bit_index\<close>,
  \<open>bit_mask\<close>). The spec: ``one bit per logical element, packed into fixed-width blocks;
  caches \<open>null_count\<close> as count of zero bits, updated incrementally on every mutation''.
  Bit \<open>i\<close> lives in block \<open>i div 8\<close> at position \<open>i mod 8\<close>.
\<close>

definition bits_per_block :: nat where
  "bits_per_block = 8"

definition compute_block_count :: "nat \<Rightarrow> nat" where
  "compute_block_count n =
     n div bits_per_block + (if n mod bits_per_block \<noteq> 0 then 1 else 0)"

definition block_index :: "nat \<Rightarrow> nat" where
  "block_index pos = pos div bits_per_block"

definition bit_index :: "nat \<Rightarrow> nat" where
  "bit_index pos = pos mod bits_per_block"

definition bit_mask :: "nat \<Rightarrow> byte" where
  "bit_mask pos = push_bit (bit_index pos) 1"

text \<open>
  Modelled from the spec: the bit at \<open>pos\<close> as the packed storage holds it, with no
  check.
\<close>

definition raw_bit :: "dynamic_bitset \<Rightarrow> nat \<Rightarrow> bool" where
  "raw_bit bm pos = bit (m_buffer bm ! block_index pos) (bit_index pos)"

text \<open>Modelled from the spec: \<open>test(i)\<close> of the absent base class.\<close>

definition test :: "dynamic_bitset \<Rightarrow> nat \<Rightarrow> exn + bool" where
  "test bm pos =
     (if \<not> pos < m_size bm then Inl assertion_failed
      else if \<not> block_index pos < length (m_buffer bm) then Inl out_of_bounds
      else Inr (raw_bit bm pos))"

text \<open>
  Modelled from the spec: \<open>set(i, bool)\<close> of the absent base class; it writes the bit and
  ``adjusts cached null_count by the delta''.
\<close>

definition set_bitset :: "dynamic_bitset \<Rightarrow> nat \<Rightarrow> bool \<Rightarrow> exn + dynamic_bitset" where
  "set_bitset bm pos v =
     (if \<not> pos < m_size bm then Inl assertion_failed
      else if \<not> block_index pos < length (m_buffer bm) then Inl out_of_bounds
      else
        let block = m_buffer bm ! block_index pos;
            old_value = bit block (bit_index pos);
            new_block = (if v then block OR bit_mask pos else block AND NOT (bit_mask pos));
            nc = (if v \<and> \<not> old_value then m_null_count bm - 1
                  else if \<not> v \<and> old_value then m_null_count bm + 1
                  else m_null_count bm)
        in Inr (bm\<lparr>m_buffer := (m_buffer bm)[block_index pos := new_block],
                    m_null_count := nc\<rparr>))"

text \<open>
  Modelled from the spec: the logical bits, first to last, and the number of set ones
  among them, recomputed by a scan (the \<open>popcount(bits)\<close> of the spec's invariant).
\<close>

definition bits_of :: "dynamic_bitset \<Rightarrow> bool list" where
  "bits_of bm = map (raw_bit bm) [0..<m_size bm]"

definition count_non_null :: "dynamic_bitset \<Rightarrow> nat" where
  "count_non_null bm = length (filter (\<lambda>b. b) (bits_of bm))"

text \<open>
  Modelled from the spec: packing a sequence of booleans into blocks, least significant
  bit first; the unused bits of the last block are zero.
\<close>

definition pack_bits :: "bool list \<Rightarrow> byte list" where
  "pack_bits bs =
     map (\<lambda>k. horner_sum of_bool 2 (take bits_per_block (drop (k * bits_per_block) bs)))
       [0..<compute_block_count (length bs)]"

text \<open>
  Modelled from the spec: \<open>resize(n, fill)\<close> of the absent base class. The first
  \<open>min n size\<close> bits are kept, the new ones are \<open>fill\<close>, and the cached null count is the
  number of zero bits of the result.
\<close>

definition resize :: "dynamic_bitset \<Rightarrow> nat \<Rightarrow> bool \<Rightarrow> dynamic_bitset" where
  "resize bm n fill =
     (let bs = take n (bits_of bm) @ replicate (n - m_size bm) fill
      in \<lparr>m_buffer = pack_bits bs, m_size = n,
          m_null_count = length (filter (\<lambda>b. \<not> b) bs)\<rparr>)"

text \<open>
  \<open>dynamic_bitset(size_type n, value_type value)\<close>: \<open>compute_block_count(n)\<close> blocks, each
  all ones or all zeros, \<open>n\<close> bits, and \<open>value ? 0u : n\<close> nulls.
\<close>

definition dynamic_bitset_fill :: "nat \<Rightarrow> bool \<Rightarrow> dynamic_bitset" where
  "dynamic_bitset_fill n v =
     \<lparr>m_buffer = replicate (compute_block_count n) (if v then NOT 0 else 0),
      m_size = n,
      m_null_count = (if v then 0 else n)\<rparr>"

text \<open>\<open>dynamic_bitset()\<close>: no block, no bit.\<close>

definition dynamic_bitset_empty :: dynamic_bitset where
  "dynamic_bitset_empty = \<lparr>m_buffer = [], m_size = 0, m_null_count = 0\<rparr>"

text \<open>
  \<open>explicit dynamic_bitset(const R& r)\<close>: all bits true first, then \<open>set(i, false)\<close> for
  every false element of the range, \<open>i\<close> counting from 0.
\<close>

fun range_ctor_loop :: "bool list \<Rightarrow> nat \<Rightarrow> dynamic_bitset \<Rightarrow> exn + dynamic_bitset" where
  "range_ctor_loop [] i bm = Inr bm"
| "range_ctor_loop (v # r) i bm =
     (if \<not> v
      then (case set_bitset bm i False of
              Inl e \<Rightarrow> Inl e
            | Inr bm' \<Rightarrow> range_ctor_loop r (Suc i) bm')
      else range_ctor_loop r (Suc i) bm)"

definition dynamic_bitset_range :: "bool list \<Rightarrow> exn + dynamic_bitset" where
  "dynamic_bitset_range r = range_ctor_loop r 0 (dynamic_bitset_fill (length r) True)"

subsection \<open>\<open>ensure_validity_bitmap\<close>\<close>

text \<open>
  \<open>ensure_validity_bitmap(std::size_t size, const validity_bitmap& bitmap)\<close>: a bitmap of
  size 0 is replaced by \<open>validity_bitmap(size, true)\<close>, any other is copied.
\<close>

definition ensure_validity_bitmap_cref :: "nat \<Rightarrow> validity_bitmap \<Rightarrow> validity_bitmap" where
  "ensure_validity_bitmap_cref sz bitmap =
     (if size_bitset bitmap = 0 then dynamic_bitset_fill sz True else bitmap)"

text \<open>
  \<open>ensure_validity_bitmap(std::size_t size, validity_bitmap&& bitmap)\<close>: a bitmap of size
  0 is resized in place with \<open>bitmap.resize(size, true)\<close>; the bitmap is then moved out.
  (The trace output to \<open>std::cout\<close> does not change the result and is left out.)
\<close>

definition ensure_validity_bitmap_rvalue :: "nat \<Rightarrow> validity_bitmap \<Rightarrow> validity_bitmap" where
  "ensure_validity_bitmap_rvalue sz bitmap =
     (if size_bitset bitmap = 0 then resize bitmap sz True else bitmap)"

text \<open>
  \<open>ensure_validity_bitmap(std::size_t size, R&& range)\<close> for a range of booleans: the
  assertion on the sizes, then \<open>validity_bitmap bitmap(size, true)\<close> and
  \<open>bitmap.set(i, false)\<close> for every false element.
\<close>

fun bool_range_loop :: "bool list \<Rightarrow> nat \<Rightarrow> validity_bitmap \<Rightarrow> exn + validity_bitmap" where
  "bool_range_loop [] i bitmap = Inr bitmap"
| "bool_range_loop (v # r) i bitmap =
     (if \<not> v
      then (case set_bitset bitmap i False of
              Inl e \<Rightarrow> Inl e
            | Inr bitmap' \<Rightarrow> bool_range_loop r (Suc i) bitmap')
      else bool_range_loop r (Suc i) bitmap)"

definition ensure_validity_bitmap_bools :: "nat \<Rightarrow> bool list \<Rightarrow> exn + validity_bitmap" where
  "ensure_validity_bitmap_bools sz r =
     (if \<not> (sz = length r \<or> length r = 0) then Inl assertion_failed
      else bool_range_loop r 0 (dynamic_bitset_fill sz True))"

text \<open>
  \<open>ensure_validity_bitmap(std::size_t size, R&& range_of_indices)\<close> for a range of
  unsigned integers that are not booleans: no assertion, \<open>validity_bitmap bitmap(size,
  true)\<close> and \<open>bitmap.set(i, false)\<close> for every element equal to 0.
\<close>

fun index_range_loop ::
  "'a::len word list \<Rightarrow> nat \<Rightarrow> validity_bitmap \<Rightarrow> exn + validity_bitmap" where
  "index_range_loop [] i bitmap = Inr bitmap"
| "index_range_loop (v # r) i bitmap =
     (if v = 0
      then (case set_bitset bitmap i False of
              Inl e \<Rightarrow> Inl e
            | Inr bitmap' \<Rightarrow> index_range_loop r (Suc i) bitmap')
      else index_range_loop r (Suc i) bitmap)"

definition ensure_validity_bitmap_indices ::
  "nat \<Rightarrow> 'a::len word list \<Rightarrow> exn + validity_bitmap" where
  "ensure_validity_bitmap_indices sz range_of_indices =
     index_range_loop range_of_indices 0 (dynamic_bitset_fill sz True)"

text \<open>
  The call \<open>ensure_validity_bitmap(size, bitmap)\<close> on a non-const lvalue
  \<open>validity_bitmap\<close>. The forwarding reference \<open>R&&\<close> of the template for ranges of
  booleans binds to it with \<open>R = validity_bitmap&\<close>, without adding \<open>const\<close>, and overload
  resolution prefers that to the binding to \<open>const validity_bitmap&\<close>; only the template
  for unsigned integers excludes \<open>validity_bitmap\<close> in its \<open>requires\<close> clause. The body of
  the template for ranges of booleans then runs with the bitmap as the range: its
  elements are the bits of the bitmap, first to last, and \<open>std::ranges::size\<close> of it is
  \<open>bitmap.size()\<close>.
\<close>

definition ensure_validity_bitmap_lvalue :: "nat \<Rightarrow> validity_bitmap \<Rightarrow> exn + validity_bitmap" where
  "ensure_validity_bitmap_lvalue sz bitmap = ensure_validity_bitmap_bools sz (bits_of bitmap)"

subsection \<open>Well-formedness and call sequences\<close>

text \<open>
  The storage holds a block for every bit (\<open>storage_ok\<close>), and the cached count is the
  number of zero bits found by a scan (\<open>null_count_ok\<close>). \<open>set_calls\<close> runs a sequence of
  \<open>set(i, b)\<close> calls, stopping at the first that fails.
\<close>

definition storage_ok :: "dynamic_bitset \<Rightarrow> bool" where
  "storage_ok bm = (compute_block_count (m_size bm) \<le> length (m_buffer bm))"

definition null_count_ok :: "dynamic_bitset \<Rightarrow> bool" where
  "null_count_ok bm = (m_null_count bm = length (filter (\<lambda>b. \<not> b) (bits_of bm)))"

fun set_calls :: "(nat \<times> bool) list \<Rightarrow> dynamic_bitset \<Rightarrow> exn + dynamic_bitset" where
  "set_calls [] bm = Inr bm"
| "set_calls ((i, b) # cs) bm =
     (case set_bitset bm i b of Inl e \<Rightarrow> Inl e | Inr bm' \<Rightarrow> set_calls cs bm')"

section \<open>\<open>fixed_size_layout<T>\<close> over an \<open>array_data\<close>\<close>

text \<open>
  Source: \<open>src/include/sparrow/any_data_utils.hpp\<close>, lines 160 to 443 (the header of
  \<open>fixed_size_layout\<close>).

  The header of \<open>array_data\<close> is not among the sources; the layout reads four of its
  members: \<open>length\<close> and \<open>offset\<close> (signed 64-bit integers, taken here as integers whose
  sums and differences stay in range), \<open>bitmap\<close> (a \<open>dynamic_bitset<std::uint8_t>\<close>) and
  \<open>buffers\<close>. Buffer 0 is read through \<open>data<T>()\<close> as a sequence of \<open>T\<close>, so a buffer is
  the list of its elements.
\<close>

record 'a array_data =
  ad_length :: int
  ad_offset :: int
  ad_bitmap :: dynamic_bitset
  ad_buffers :: "'a list list"

text \<open>The layout holds \<open>array_data* p_data\<close>; nothing else aliases it here.\<close>

record 'a fixed_size_layout_rec =
  p_data :: "'a array_data"

text \<open>
  \<open>fixed_size_layout(array_data& data)\<close>: the two assertions of the constructor.
\<close>

definition fixed_size_layout :: "'a array_data \<Rightarrow> exn + 'a fixed_size_layout_rec" where
  "fixed_size_layout data =
     (if \<not> 0 < length (ad_buffers data) then Inl assertion_failed
      else if \<not> ad_length data = int (size_bitset (ad_bitmap data)) then Inl assertion_failed
      else Inr \<lparr>p_data = data\<rparr>)"

text \<open>\<open>size()\<close>: \<open>assert(offset <= length)\<close>, then \<open>length - offset\<close> as a \<open>size_type\<close>.\<close>

definition size_fixed :: "'a fixed_size_layout_rec \<Rightarrow> exn + nat" where
  "size_fixed l =
     (if \<not> ad_offset (p_data l) \<le> ad_length (p_data l) then Inl assertion_failed
      else Inr (nat (ad_length (p_data l) - ad_offset (p_data l))))"

text \<open>\<open>data()\<close>: \<open>assert(buffers.size() > 0)\<close>, then buffer 0 as a pointer to \<open>T\<close>.\<close>

definition data_fixed :: "'a fixed_size_layout_rec \<Rightarrow> exn + 'a list" where
  "data_fixed l =
     (if \<not> 0 < length (ad_buffers (p_data l)) then Inl assertion_failed
      else Inr (ad_buffers (p_data l) ! 0))"

text \<open>
  Reading \<open>p[k]\<close> through a raw pointer \<open>p\<close> to the first element of a buffer: outside the
  buffer the read is undefined behaviour, kept as \<open>out_of_bounds\<close>.
\<close>

definition buffer_at :: "'a list \<Rightarrow> int \<Rightarrow> exn + 'a" where
  "buffer_at buf k = (if 0 \<le> k \<and> nat k < length buf then Inr (buf ! nat k) else Inl out_of_bounds)"

text \<open>\<open>value(i)\<close>: \<open>assert(i < size())\<close>, then \<open>data()[i + p_data->offset]\<close>.\<close>

definition value_fixed :: "'a fixed_size_layout_rec \<Rightarrow> nat \<Rightarrow> exn + 'a" where
  "value_fixed l i =
     (case size_fixed l of
        Inl e \<Rightarrow> Inl e
      | Inr sz \<Rightarrow>
          if \<not> i < sz then Inl assertion_failed
          else (case data_fixed l of
                  Inl e \<Rightarrow> Inl e
                | Inr d \<Rightarrow> buffer_at d (int i + ad_offset (p_data l))))"

text \<open>\<open>has_value(i)\<close>: \<open>assert(i < size())\<close>, then \<open>p_data->bitmap[i + p_data->offset]\<close>.\<close>

definition has_value_fixed :: "'a fixed_size_layout_rec \<Rightarrow> nat \<Rightarrow> exn + bool" where
  "has_value_fixed l i =
     (case size_fixed l of
        Inl e \<Rightarrow> Inl e
      | Inr sz \<Rightarrow>
          if \<not> i < sz then Inl assertion_failed
          else if int i + ad_offset (p_data l) < 0 then Inl out_of_bounds
          else test (ad_bitmap (p_data l)) (nat (int i + ad_offset (p_data l))))"

text \<open>
  \<open>operator[](i)\<close>: \<open>assert(i < size())\<close>, then \<open>reference(value(i), has_value(i))\<close>: the
  value paired with its validity flag.
\<close>

definition subscript_fixed :: "'a fixed_size_layout_rec \<Rightarrow> nat \<Rightarrow> exn + ('a \<times> bool)" where
  "subscript_fixed l i =
     (case size_fixed l of
        Inl e \<Rightarrow> Inl e
      | Inr sz \<Rightarrow>
          if \<not> i < sz then Inl assertion_failed
          else (case value_fixed l i of
                  Inl e \<Rightarrow> Inl e
                | Inr v \<Rightarrow>
                    (case has_value_fixed l i of
                       Inl e \<Rightarrow> Inl e
                     | Inr h \<Rightarrow> Inr (v, h))))"

section \<open>Offsets of a list array from the sizes of its elements\<close>




section \<open>Proxies, buffers in memory and the layouts built on them\<close>

text \<open>
  Sources: \<open>src/unnamed/part_000\<close>, lines 60 to 712 (the header of the list layouts:
  \<open>list_array_crtp_base\<close>, \<open>list_array_impl\<close>, \<open>list_view_array_impl\<close>,
  \<open>fixed_sized_list_array\<close>), and \<open>src/src_v01/array_factory.cpp\<close> (\<open>array_factory\<close>, the
  only factory among the sources).
\<close>

subsection \<open>The heap of buffers\<close>

text \<open>
  A buffer is a sequence of bytes at an address. Layouts keep raw pointers into the
  buffers of their proxy, and a copy must not share them, so buffers live in an
  explicit heap: \<open>mem\<close> gives the bytes at an address, and every address below \<open>brk\<close> has
  been allocated. A raw pointer is the address of a buffer with a displacement in bytes.
\<close>

type_synonym addr = nat

record heap =
  mem :: "addr \<Rightarrow> byte list"
  brk :: addr

type_synonym ptr = "addr \<times> nat"

definition alloc :: "heap \<Rightarrow> byte list \<Rightarrow> addr \<times> heap" where
  "alloc h bytes = (brk h, h\<lparr>mem := (mem h)(brk h := bytes), brk := Suc (brk h)\<rparr>)"

text \<open>Writing one byte of a buffer in place: what a mutation through a layout does.\<close>

definition store_byte :: "heap \<Rightarrow> addr \<Rightarrow> nat \<Rightarrow> byte \<Rightarrow> heap" where
  "store_byte h a pos v = h\<lparr>mem := (mem h)(a := (mem h a)[pos := v])\<rparr>"

text \<open>
  Reading an unsigned integer of \<open>w\<close> bytes at byte position \<open>pos\<close> of a buffer, least
  significant byte first (the byte order of the Arrow format); a read that leaves the
  buffer is undefined behaviour, kept as \<open>out_of_bounds\<close>.
\<close>

fun le_value :: "byte list \<Rightarrow> nat" where
  "le_value [] = 0"
| "le_value (b # bs) = unat b + 256 * le_value bs"

definition load_unsigned :: "byte list \<Rightarrow> nat \<Rightarrow> nat \<Rightarrow> exn + nat" where
  "load_unsigned bytes pos w =
     (if pos + w \<le> length bytes then Inr (le_value (take w (drop pos bytes)))
      else Inl out_of_bounds)"

text \<open>\<open>p[i]\<close> for a pointer \<open>p\<close> to unsigned integers of \<open>w\<close> bytes.\<close>

definition ptr_index :: "heap \<Rightarrow> ptr \<Rightarrow> nat \<Rightarrow> nat \<Rightarrow> exn + nat" where
  "ptr_index h p w i = load_unsigned (mem h (fst p)) (snd p + i * w) w"

subsection \<open>\<open>arrow_proxy\<close>\<close>

text \<open>
  Modelled from the spec: \<open>arrow_proxy\<close>, whose header is not among the sources. The spec:
  the proxy ``exposes: format, name, metadata, flags, length, offset, null_count, buffer
  byte-spans, and child proxies''. The members the embedded functions read are kept:
  \<open>format()\<close>, \<open>length()\<close>, \<open>offset()\<close>, \<open>buffers()\<close> (each byte span that \<open>buffers()\<close>
  exposes, by the address of its bytes: \<open>data()\<close> points to the first of them) and
  \<open>children()\<close>. A view of a child (\<open>children()[0].view()\<close>) shares the child's buffers:
  it is the child itself.
\<close>

datatype arrow_proxy =
  Arrow_proxy (format: string) (proxy_length: nat) (proxy_offset: nat)
    (buffers: "addr list") (children: "arrow_proxy list")

text \<open>Every buffer address of a proxy and of its descendants.\<close>

fun proxy_addrs :: "arrow_proxy \<Rightarrow> addr list" where
  "proxy_addrs (Arrow_proxy fmt len off bufs chs) = bufs @ concat (map proxy_addrs chs)"

text \<open>
  Modelled from the spec: the copy constructor of \<open>arrow_proxy\<close>, which the copy
  constructors of the layouts reach through their absent base class
  \<open>array_bitmap_base\<close>. The spec: ``copying a Layout deep-copies the Proxy (and
  recursively its children) -- no layout aliases another's buffers''. Every buffer of
  the tree is copied into a newly allocated one.
\<close>

fun copy_buffers :: "heap \<Rightarrow> addr list \<Rightarrow> addr list \<times> heap" where
  "copy_buffers h [] = ([], h)"
| "copy_buffers h (a # as) =
     (let (a', h1) = alloc h (mem h a);
          (as', h2) = copy_buffers h1 as
      in (a' # as', h2))"

fun copy_proxy :: "heap \<Rightarrow> arrow_proxy \<Rightarrow> arrow_proxy \<times> heap"
  and copy_proxies :: "heap \<Rightarrow> arrow_proxy list \<Rightarrow> arrow_proxy list \<times> heap" where
  "copy_proxy h (Arrow_proxy fmt len off bufs chs) =
     (let (bufs', h1) = copy_buffers h bufs;
          (chs', h2) = copy_proxies h1 chs
      in (Arrow_proxy fmt len off bufs' chs', h2))"
| "copy_proxies h [] = ([], h)"
| "copy_proxies h (c # cs) =
     (let (c', h1) = copy_proxy h c;
          (cs', h2) = copy_proxies h1 cs
      in (c' # cs', h2))"

subsection \<open>The layouts\<close>

text \<open>
  The element types of \<open>primitive_array<T>\<close> that the factory instantiates, and the
  layouts: \<open>null_array\<close> and \<open>primitive_array<T>\<close> hold their proxy; the classes derived
  from \<open>list_array_crtp_base\<close> hold their proxy, the child layout \<open>p_flat_array\<close> and
  their own members: \<open>p_list_offsets\<close> for \<open>list_array_impl<BIG>\<close>, \<open>p_list_offsets\<close> and
  \<open>p_list_sizes\<close> for \<open>list_view_array_impl<BIG>\<close>, \<open>m_list_size\<close> for
  \<open>fixed_sized_list_array\<close>. \<open>list_array\<close> is \<open>list_array_impl<false>\<close> and
  \<open>big_list_array\<close> is \<open>list_array_impl<true>\<close>.
\<close>

datatype prim =
  BOOL | INT8 | UINT8 | INT16 | UINT16 | INT32 | UINT32 | INT64 | UINT64 | FLOAT | DOUBLE

datatype layout =
    Null_array arrow_proxy
  | Primitive_array prim arrow_proxy
  | List_layout list_layout
and list_layout =
    List_array_impl bool arrow_proxy layout ptr
  | List_view_array_impl bool arrow_proxy layout ptr ptr
  | Fixed_sized_list_array arrow_proxy layout "64 word"

fun get_arrow_proxy :: "list_layout \<Rightarrow> arrow_proxy" where
  "get_arrow_proxy (List_array_impl big proxy flat offs) = proxy"
| "get_arrow_proxy (List_view_array_impl big proxy flat offs sizes) = proxy"
| "get_arrow_proxy (Fixed_sized_list_array proxy flat n) = proxy"

fun raw_flat_array :: "list_layout \<Rightarrow> layout" where
  "raw_flat_array (List_array_impl big proxy flat offs) = flat"
| "raw_flat_array (List_view_array_impl big proxy flat offs sizes) = flat"
| "raw_flat_array (Fixed_sized_list_array proxy flat n) = flat"

text \<open>
  \<open>make_list_offsets()\<close> and \<open>make_list_sizes()\<close>: the data pointer of buffer 1 (of buffer
  2), a pointer to bytes, advanced by \<open>offset()\<close> and then cast to a pointer to offsets.
\<close>

definition OFFSET_BUFFER_INDEX :: nat where
  "OFFSET_BUFFER_INDEX = 1"

definition SIZES_BUFFER_INDEX :: nat where
  "SIZES_BUFFER_INDEX = 2"

definition make_list_offsets :: "arrow_proxy \<Rightarrow> exn + ptr" where
  "make_list_offsets proxy =
     (if OFFSET_BUFFER_INDEX < length (buffers proxy)
      then Inr (buffers proxy ! OFFSET_BUFFER_INDEX, proxy_offset proxy)
      else Inl out_of_bounds)"

definition make_list_sizes :: "arrow_proxy \<Rightarrow> exn + ptr" where
  "make_list_sizes proxy =
     (if SIZES_BUFFER_INDEX < length (buffers proxy)
      then Inr (buffers proxy ! SIZES_BUFFER_INDEX, proxy_offset proxy)
      else Inl out_of_bounds)"

text \<open>
  \<open>list_array_impl(arrow_proxy proxy)\<close>: the base class is constructed first, which
  builds \<open>p_flat_array\<close> with \<open>make_flat_array()\<close>; then \<open>p_list_offsets\<close> is derived. The
  constructor is given here from the result of \<open>make_flat_array()\<close>, because that
  function calls the factory, which in turn calls this constructor.
\<close>

definition list_array_impl_from ::
  "bool \<Rightarrow> arrow_proxy \<Rightarrow> exn + layout \<Rightarrow> exn + list_layout" where
  "list_array_impl_from big proxy flat_array =
     (case flat_array of
        Inl e \<Rightarrow> Inl e
      | Inr flat \<Rightarrow>
          (case make_list_offsets proxy of
             Inl e \<Rightarrow> Inl e
           | Inr offs \<Rightarrow> Inr (List_array_impl big proxy flat offs)))"

text \<open>
  \<open>array_factory(arrow_proxy proxy)\<close>: a format of one character is dispatched by the
  \<open>switch\<close>, \<open>"+l"\<close> and \<open>"+L"\<close> by comparison of the whole string; everything else throws
  \<open>std::runtime_error("Unsupported format")\<close>. The result of \<open>make_flat_array()\<close>, passed
  to the constructor of the list array, is the factory's result on \<open>children()[0]\<close>.
\<close>

fun array_factory :: "arrow_proxy \<Rightarrow> exn + layout" where
  "array_factory (Arrow_proxy fmt len off bufs chs) =
     (let proxy = Arrow_proxy fmt len off bufs chs in
      if length fmt = 1 then
        (let c = fmt ! 0 in
         if c = CHR ''n'' then Inr (Null_array proxy)
         else if c = CHR ''b'' then Inr (Primitive_array BOOL proxy)
         else if c = CHR ''c'' then Inr (Primitive_array INT8 proxy)
         else if c = CHR ''C'' then Inr (Primitive_array UINT8 proxy)
         else if c = CHR ''s'' then Inr (Primitive_array INT16 proxy)
         else if c = CHR ''S'' then Inr (Primitive_array UINT16 proxy)
         else if c = CHR ''i'' then Inr (Primitive_array INT32 proxy)
         else if c = CHR ''I'' then Inr (Primitive_array UINT32 proxy)
         else if c = CHR ''l'' then Inr (Primitive_array INT64 proxy)
         else if c = CHR ''L'' then Inr (Primitive_array UINT64 proxy)
         else if c = CHR ''f'' then Inr (Primitive_array FLOAT proxy)
         else if c = CHR ''d'' then Inr (Primitive_array DOUBLE proxy)
         else Inl (runtime_error ''Unsupported format''))
      else if fmt = ''+l'' then
        map_sum id List_layout
          (list_array_impl_from False proxy
            (case chs of [] \<Rightarrow> Inl out_of_bounds | c # _ \<Rightarrow> array_factory c))
      else if fmt = ''+L'' then
        map_sum id List_layout
          (list_array_impl_from True proxy
            (case chs of [] \<Rightarrow> Inl out_of_bounds | c # _ \<Rightarrow> array_factory c))
      else Inl (runtime_error ''Unsupported format''))"

text \<open>
  \<open>make_flat_array()\<close>: \<open>array_factory(get_arrow_proxy().children()[0].view())\<close>; with no
  child the subscript is undefined behaviour.
\<close>

definition make_flat_array :: "arrow_proxy \<Rightarrow> exn + layout" where
  "make_flat_array proxy =
     (case children proxy of [] \<Rightarrow> Inl out_of_bounds | c # _ \<Rightarrow> array_factory c)"

definition list_array_impl :: "bool \<Rightarrow> arrow_proxy \<Rightarrow> exn + list_layout" where
  "list_array_impl big proxy = list_array_impl_from big proxy (make_flat_array proxy)"

text \<open>The formats that the factory accepts.\<close>

definition supported_formats :: "string set" where
  "supported_formats = {''n'', ''b'', ''c'', ''C'', ''s'', ''S'', ''i'', ''I'', ''l'', ''L'',
     ''f'', ''d'', ''+l'', ''+L''}"

text \<open>
  \<open>list_view_array_impl(arrow_proxy proxy)\<close>: the base class with \<open>p_flat_array\<close>, then
  \<open>p_list_offsets\<close> and \<open>p_list_sizes\<close>.
\<close>

definition list_view_array_impl :: "bool \<Rightarrow> arrow_proxy \<Rightarrow> exn + list_layout" where
  "list_view_array_impl big proxy =
     (case make_flat_array proxy of
        Inl e \<Rightarrow> Inl e
      | Inr flat \<Rightarrow>
          (case make_list_offsets proxy of
             Inl e \<Rightarrow> Inl e
           | Inr offs \<Rightarrow>
               (case make_list_sizes proxy of
                  Inl e \<Rightarrow> Inl e
                | Inr sizes \<Rightarrow> Inr (List_view_array_impl big proxy flat offs sizes))))"

subsection \<open>\<open>fixed_sized_list_array\<close> and its format\<close>

text \<open>
  \<open>std::stoull(str)\<close> of the C++ standard library, in base 10: leading white space is
  skipped, one sign is accepted, the longest run of decimal digits is converted and
  whatever follows is ignored. With no digit it throws \<open>std::invalid_argument\<close>; with a
  number above \<open>2^64 - 1\<close> it throws \<open>std::out_of_range\<close>; after a minus sign the result is
  negated in the unsigned type.
\<close>

definition isspace :: "char \<Rightarrow> bool" where
  "isspace c = (c = CHR '' '' \<or> c = CHR 0x09 \<or> c = CHR 0x0A \<or> c = CHR 0x0B
                \<or> c = CHR 0x0C \<or> c = CHR 0x0D)"

definition isdigit :: "char \<Rightarrow> bool" where
  "isdigit c = (48 \<le> (of_char c :: nat) \<and> (of_char c :: nat) \<le> 57)"

fun decimal :: "nat \<Rightarrow> string \<Rightarrow> nat" where
  "decimal acc [] = acc"
| "decimal acc (c # cs) = decimal (acc * 10 + (of_char c - 48)) cs"

definition strip_sign :: "string \<Rightarrow> string" where
  "strip_sign s = (case s of [] \<Rightarrow> [] | c # cs \<Rightarrow> if c = CHR ''+'' \<or> c = CHR ''-'' then cs else s)"

definition negative :: "string \<Rightarrow> bool" where
  "negative s = (case s of [] \<Rightarrow> False | c # cs \<Rightarrow> c = CHR ''-'')"

definition leading_digits :: "string \<Rightarrow> string" where
  "leading_digits str = takeWhile isdigit (strip_sign (dropWhile isspace str))"

definition stoull :: "string \<Rightarrow> exn + 64 word" where
  "stoull str =
     (let digits = leading_digits str in
      if digits = [] then Inl invalid_argument
      else if 2 ^ 64 \<le> decimal 0 digits then Inl out_of_range
      else if negative (dropWhile isspace str) then Inr (- of_nat (decimal 0 digits))
      else Inr (of_nat (decimal 0 digits)))"

text \<open>
  A decimal literal, the reading of ``a valid non-negative integer'': at least one
  character, all of them decimal digits.
\<close>

definition decimal_literal :: "string \<Rightarrow> bool" where
  "decimal_literal s = (s \<noteq> [] \<and> list_all isdigit s)"

text \<open>
  \<open>list_size_from_format(format)\<close>: the assertion on the length, then \<open>std::stoull\<close> of
  \<open>format.substr(3, format.size() - 3)\<close>.
\<close>

definition list_size_from_format :: "string \<Rightarrow> exn + 64 word" where
  "list_size_from_format fmt =
     (if \<not> 3 \<le> length fmt then Inl assertion_failed
      else stoull (take (length fmt - 3) (drop 3 fmt)))"

text \<open>
  \<open>fixed_sized_list_array(arrow_proxy proxy)\<close>: the base class with \<open>p_flat_array\<close>, then
  \<open>m_list_size\<close> from the format.
\<close>

definition fixed_sized_list_array :: "arrow_proxy \<Rightarrow> exn + list_layout" where
  "fixed_sized_list_array proxy =
     (case make_flat_array proxy of
        Inl e \<Rightarrow> Inl e
      | Inr flat \<Rightarrow>
          (case list_size_from_format (format proxy) of
             Inl e \<Rightarrow> Inl e
           | Inr n \<Rightarrow> Inr (Fixed_sized_list_array proxy flat n)))"

subsection \<open>Elements of a list layout\<close>

text \<open>
  \<open>list_value\<close>: the child layout with a half-open range of indices into it, as
  \<open>list_value{p_flat_array.get(), first, second}\<close> builds it.
\<close>

datatype list_value = List_value layout nat nat

text \<open>\<open>sizeof(offset_type)\<close>: 8 bytes when \<open>BIG\<close>, 4 otherwise.\<close>

definition offset_width :: "bool \<Rightarrow> nat" where
  "offset_width big = (if big then 8 else 4)"

text \<open>
  \<open>offset_range(i)\<close> of the three derived classes. \<open>list_array_impl\<close>:
  \<open>(p_list_offsets[i], p_list_offsets[i + 1])\<close>. \<open>list_view_array_impl\<close>:
  \<open>(offset, offset + p_list_sizes[i])\<close> with \<open>offset = p_list_offsets[i]\<close>, the sum in the
  offset type. \<open>fixed_sized_list_array\<close>: \<open>(offset, offset + m_list_size)\<close> with
  \<open>offset = i * m_list_size\<close>, in 64 bits.
\<close>

fun offset_range :: "heap \<Rightarrow> list_layout \<Rightarrow> nat \<Rightarrow> exn + (nat \<times> nat)" where
  "offset_range h (List_array_impl big proxy flat offs) i =
     (case ptr_index h offs (offset_width big) i of
        Inl e \<Rightarrow> Inl e
      | Inr first \<Rightarrow>
          (case ptr_index h offs (offset_width big) (i + 1) of
             Inl e \<Rightarrow> Inl e
           | Inr second \<Rightarrow> Inr (first, second)))"
| "offset_range h (List_view_array_impl big proxy flat offs sizes) i =
     (case ptr_index h offs (offset_width big) i of
        Inl e \<Rightarrow> Inl e
      | Inr offset \<Rightarrow>
          (case ptr_index h sizes (offset_width big) i of
             Inl e \<Rightarrow> Inl e
           | Inr sz \<Rightarrow> Inr (offset, (offset + sz) mod 2 ^ (8 * offset_width big))))"
| "offset_range h (Fixed_sized_list_array proxy flat n) i =
     (let offset = (of_nat i :: 64 word) * n in Inr (unat offset, unat (offset + n)))"

text \<open>
  Element \<open>k\<close> of a buffer of offsets of \<open>w\<close> bytes each: what \<open>offsets[k]\<close> denotes for
  the offsets buffer of a list array.
\<close>

definition offsets_element :: "nat \<Rightarrow> byte list \<Rightarrow> nat \<Rightarrow> nat" where
  "offsets_element w bytes k = le_value (take w (drop (k * w) bytes))"

text \<open>
  \<open>list_array_crtp_base::value(i)\<close>: the range of the derived class, converted to
  \<open>list_value::size_type\<close>, with the child layout.
\<close>

definition value_list :: "heap \<Rightarrow> list_layout \<Rightarrow> nat \<Rightarrow> exn + list_value" where
  "value_list h l i =
     (case offset_range h l i of
        Inl e \<Rightarrow> Inl e
      | Inr r \<Rightarrow> Inr (List_value (raw_flat_array l) (fst r) (snd r)))"

text \<open>
  Modelled from the spec: \<open>size()\<close> and the validity access of the absent base classes
  \<open>array_crtp_base\<close> and \<open>array_bitmap_base\<close>. The spec: \<open>size()\<close> is the length of the
  proxy, and ``validity access via the bitmap buffer at index 0 honoring \<open>offset\<close>''.
\<close>

definition list_layout_size :: "list_layout \<Rightarrow> nat" where
  "list_layout_size l = proxy_length (get_arrow_proxy l)"

definition has_value_list :: "heap \<Rightarrow> list_layout \<Rightarrow> nat \<Rightarrow> exn + bool" where
  "has_value_list h l i =
     (let proxy = get_arrow_proxy l; pos = i + proxy_offset proxy in
      if \<not> i < list_layout_size l then Inl assertion_failed
      else if buffers proxy = [] then Inl out_of_bounds
      else if \<not> block_index pos < length (mem h (buffers proxy ! 0)) then Inl out_of_bounds
      else Inr (bit (mem h (buffers proxy ! 0) ! block_index pos) (bit_index pos)))"

subsection \<open>Copying a list layout\<close>

text \<open>
  The copy constructors. \<open>list_array_crtp_base(const self_type& rhs)\<close> copies the base
  class, and with it the proxy, then builds \<open>p_flat_array\<close> again with
  \<open>make_flat_array()\<close>; \<open>list_array_impl(const self_type& rhs)\<close> then derives
  \<open>p_list_offsets\<close> again with \<open>make_list_offsets()\<close>, \<open>list_view_array_impl\<close> also
  \<open>p_list_sizes\<close>; the copy constructor of \<open>fixed_sized_list_array\<close> is defaulted, so it
  copies \<open>m_list_size\<close> after the base class.
\<close>

fun copy_list_layout :: "heap \<Rightarrow> list_layout \<Rightarrow> exn + (list_layout \<times> heap)" where
  "copy_list_layout h (List_array_impl big proxy flat offs) =
     (let (proxy', h') = copy_proxy h proxy in
      case make_flat_array proxy' of
        Inl e \<Rightarrow> Inl e
      | Inr flat' \<Rightarrow>
          (case make_list_offsets proxy' of
             Inl e \<Rightarrow> Inl e
           | Inr offs' \<Rightarrow> Inr (List_array_impl big proxy' flat' offs', h')))"
| "copy_list_layout h (List_view_array_impl big proxy flat offs sizes) =
     (let (proxy', h') = copy_proxy h proxy in
      case make_flat_array proxy' of
        Inl e \<Rightarrow> Inl e
      | Inr flat' \<Rightarrow>
          (case make_list_offsets proxy' of
             Inl e \<Rightarrow> Inl e
           | Inr offs' \<Rightarrow>
               (case make_list_sizes proxy' of
                  Inl e \<Rightarrow> Inl e
                | Inr sizes' \<Rightarrow> Inr (List_view_array_impl big proxy' flat' offs' sizes', h'))))"
| "copy_list_layout h (Fixed_sized_list_array proxy flat n) =
     (let (proxy', h') = copy_proxy h proxy in
      case make_flat_array proxy' of
        Inl e \<Rightarrow> Inl e
      | Inr flat' \<Rightarrow> Inr (Fixed_sized_list_array proxy' flat' n, h'))"

subsection \<open>Shapes, allocation and construction\<close>

text \<open>
  The shape of a proxy is the proxy without the addresses of its buffers; a proxy is
  allocated in a heap when all the buffers of its tree are; a list layout is constructed
  when one of the three constructors returns it from its own proxy.
\<close>

fun proxy_shape :: "arrow_proxy \<Rightarrow> arrow_proxy" where
  "proxy_shape (Arrow_proxy fmt len off bufs chs) =
     Arrow_proxy fmt len off (map (\<lambda>a. 0) bufs) (map proxy_shape chs)"

definition allocated :: "heap \<Rightarrow> arrow_proxy \<Rightarrow> bool" where
  "allocated h proxy = list_all (\<lambda>a. a < brk h) (proxy_addrs proxy)"

definition constructed :: "list_layout \<Rightarrow> bool" where
  "constructed l =
     (list_array_impl False (get_arrow_proxy l) = Inr l
      \<or> list_array_impl True (get_arrow_proxy l) = Inr l
      \<or> list_view_array_impl False (get_arrow_proxy l) = Inr l
      \<or> list_view_array_impl True (get_arrow_proxy l) = Inr l
      \<or> fixed_sized_list_array (get_arrow_proxy l) = Inr l)"

section \<open>An example heap\<close>

text \<open>
  The buffers of the list array \<open>[[1,2],[],[3]]\<close> of 32-bit integers: at address 0 the
  validity bitmap of the list array (three valid elements), at address 1 its offsets 0, 2, 2, 3, at address 2
  the (empty) validity bitmap of the child and at address 3 the child's values 1, 2, 3.
\<close>

definition ex_heap :: heap where
  "ex_heap = \<lparr>mem = (\<lambda>a. if a = 0 then [7]
       else if a = 1 then [0,0,0,0, 2,0,0,0, 2,0,0,0, 3,0,0,0]
       else if a = 3 then [1,0,0,0, 2,0,0,0, 3,0,0,0] else []), brk = 4\<rparr>"

text \<open>
  A heap for list arrays viewed from a non-zero offset. At address 1 the six 32-bit
  offsets 0, 2, 2, 3, 7, 9 of a list array of five elements, at address 4 the four
  64-bit offsets 0, 2, 2, 3 of a big list array of three elements; at address 0 a
  validity bitmap, at addresses 2 and 3 the (empty) validity bitmap and the nine values
  of the child.
\<close>

definition ex_heap_sliced :: heap where
  "ex_heap_sliced = \<lparr>mem = (\<lambda>a. if a = 0 then [255]
       else if a = 1 then [0,0,0,0, 2,0,0,0, 2,0,0,0, 3,0,0,0, 7,0,0,0, 9,0,0,0]
       else if a = 3 then [1,0,0,0, 2,0,0,0, 3,0,0,0, 4,0,0,0, 5,0,0,0, 6,0,0,0,
                           7,0,0,0, 8,0,0,0, 9,0,0,0]
       else if a = 4 then [0,0,0,0,0,0,0,0, 2,0,0,0,0,0,0,0, 2,0,0,0,0,0,0,0,
                           3,0,0,0,0,0,0,0]
       else []), brk = 5\<rparr>"

text \<open>
  The child of nine 32-bit integers, a list array of one element that views the first
  buffer of offsets from offset 4, and a big list array of one element that views the
  second one from offset 2.
\<close>

definition ex_child :: arrow_proxy where
  "ex_child = Arrow_proxy ''i'' 9 0 [2, 3] []"

definition ex_list_sliced :: arrow_proxy where
  "ex_list_sliced = Arrow_proxy ''+l'' 1 4 [0, 1] [ex_child]"

definition ex_big_list_sliced :: arrow_proxy where
  "ex_big_list_sliced = Arrow_proxy ''+L'' 1 2 [0, 4] [ex_child]"

section \<open>Properties of the validity bitmap\<close>

lemma block_index_less: "pos < n \<Longrightarrow> block_index pos < compute_block_count n"
  unfolding block_index_def compute_block_count_def bits_per_block_def
  by (auto simp: less_Suc_eq_le div_le_mono)

lemma bit_index_less: "bit_index pos < 8"
  by (simp add: bit_index_def bits_per_block_def)

lemma same_position: "block_index i = block_index j \<Longrightarrow> bit_index i = bit_index j \<Longrightarrow> i = j"
  unfolding block_index_def bit_index_def
  by (metis div_mult_mod_eq)

lemma raw_bit_fill_True: "pos < n \<Longrightarrow> raw_bit (dynamic_bitset_fill n True) pos"
  by (simp add: raw_bit_def dynamic_bitset_fill_def block_index_less bit_simps bit_index_less)

lemma raw_bit_fill_False: "pos < n \<Longrightarrow> \<not> raw_bit (dynamic_bitset_fill n False) pos"
  by (simp add: raw_bit_def dynamic_bitset_fill_def block_index_less)

lemma bits_of_fill: "bits_of (dynamic_bitset_fill n v) = replicate n v"
proof (rule nth_equalityI)
  show "length (bits_of (dynamic_bitset_fill n v)) = length (replicate n v)"
    by (simp add: bits_of_def dynamic_bitset_fill_def)
next
  fix i assume "i < length (bits_of (dynamic_bitset_fill n v))"
  then have i: "i < n" by (simp add: bits_of_def dynamic_bitset_fill_def)
  then have "m_size (dynamic_bitset_fill n v) = n" by (simp add: dynamic_bitset_fill_def)
  with i show "bits_of (dynamic_bitset_fill n v) ! i = replicate n v ! i"
    using raw_bit_fill_True [OF i] raw_bit_fill_False [OF i]
    by (cases v) (simp_all add: bits_of_def)
qed

lemma storage_ok_fill: "storage_ok (dynamic_bitset_fill n v)"
  by (simp add: storage_ok_def dynamic_bitset_fill_def)

lemma bit_mask_bit: "bit (bit_mask pos) j \<longleftrightarrow> j = bit_index pos"
  using bit_index_less [of pos]
  by (auto simp add: bit_mask_def bit_simps)

lemma raw_bit_set:
  assumes "set_bitset bm pos v = Inr bm'" and "block_index j < length (m_buffer bm)"
  shows "raw_bit bm' j = (if j = pos then v else raw_bit bm j)"
proof -
  from assms(1) have p: "pos < m_size bm" "block_index pos < length (m_buffer bm)"
    by (auto simp: set_bitset_def split: if_splits)
  let ?block = "m_buffer bm ! block_index pos"
  let ?new = "if v then ?block OR bit_mask pos else ?block AND NOT (bit_mask pos)"
  from assms(1) p have buf: "m_buffer bm' = (m_buffer bm)[block_index pos := ?new]"
    by (auto simp: set_bitset_def Let_def)
  show ?thesis
  proof (cases "block_index j = block_index pos")
    case False
    then have "j \<noteq> pos" by auto
    with False show ?thesis by (simp add: raw_bit_def buf)
  next
    case True
    then have "raw_bit bm' j = bit ?new (bit_index j)"
      using p by (simp add: raw_bit_def buf)
    also have "\<dots> = (if bit_index j = bit_index pos then v else bit ?block (bit_index j))"
      using bit_index_less [of j] by (auto simp: bit_simps bit_mask_bit)
    also have "\<dots> = (if j = pos then v else raw_bit bm j)"
      using True same_position [of j pos] by (auto simp: raw_bit_def)
    finally show ?thesis .
  qed
qed

lemma set_bitset_ok:
  assumes "storage_ok bm" and "pos < m_size bm"
  shows "\<exists>bm'. set_bitset bm pos v = Inr bm'"
  using assms block_index_less [of pos "m_size bm"]
  by (auto simp: set_bitset_def storage_ok_def Let_def)

lemma set_bitset_size:
  "set_bitset bm pos v = Inr bm' \<Longrightarrow> m_size bm' = m_size bm \<and> length (m_buffer bm') = length (m_buffer bm)"
  by (auto simp: set_bitset_def Let_def split: if_splits)

lemma set_bitset_storage_ok:
  "set_bitset bm pos v = Inr bm' \<Longrightarrow> storage_ok bm \<Longrightarrow> storage_ok bm'"
  using set_bitset_size [of bm pos v bm'] by (simp add: storage_ok_def)

lemma bits_of_set:
  assumes "set_bitset bm pos v = Inr bm'" and "storage_ok bm"
  shows "bits_of bm' = (bits_of bm)[pos := v]"
proof (rule nth_equalityI)
  show "length (bits_of bm') = length ((bits_of bm)[pos := v])"
    using set_bitset_size [OF assms(1)] by (simp add: bits_of_def)
next
  fix j assume "j < length (bits_of bm')"
  then have j: "j < m_size bm" using set_bitset_size [OF assms(1)] by (simp add: bits_of_def)
  then have "block_index j < length (m_buffer bm)"
    using block_index_less [OF j] assms(2) by (simp add: storage_ok_def)
  from raw_bit_set [OF assms(1) this] j set_bitset_size [OF assms(1)]
  show "bits_of bm' ! j = (bits_of bm)[pos := v] ! j"
    by (auto simp: bits_of_def nth_list_update)
qed

lemma set_bitset_null_count:
  assumes "set_bitset bm pos v = Inr bm'"
  shows "m_null_count bm' =
    (if v \<and> \<not> raw_bit bm pos then m_null_count bm - 1
     else if \<not> v \<and> raw_bit bm pos then m_null_count bm + 1 else m_null_count bm)"
  using assms by (auto simp: set_bitset_def Let_def raw_bit_def split: if_splits)

lemma count_false_update:
  assumes "i < length xs"
  shows "length (filter (\<lambda>b. \<not> b) (xs[i := v])) =
    (if v \<and> \<not> xs ! i then length (filter (\<lambda>b. \<not> b) xs) - 1
     else if \<not> v \<and> xs ! i then length (filter (\<lambda>b. \<not> b) xs) + 1
     else length (filter (\<lambda>b. \<not> b) xs))"
proof -
  have a: "xs = take i xs @ xs ! i # drop (Suc i) xs"
    using assms by (simp add: id_take_nth_drop)
  have b: "xs[i := v] = take i xs @ v # drop (Suc i) xs"
    using assms by (simp add: upd_conv_take_nth_drop)
  have "length (filter (\<lambda>b. \<not> b) xs) =
      length (filter (\<lambda>b. \<not> b) (take i xs)) + (if xs ! i then 0 else 1) + length (filter (\<lambda>b. \<not> b) (drop (Suc i) xs))"
    by (subst a) simp
  moreover have "length (filter (\<lambda>b. \<not> b) (xs[i := v])) =
      length (filter (\<lambda>b. \<not> b) (take i xs)) + (if v then 0 else 1) + length (filter (\<lambda>b. \<not> b) (drop (Suc i) xs))"
    by (subst b) simp
  ultimately show ?thesis by simp
qed

lemma count_true_false: "length (filter (\<lambda>b. b) xs) + length (filter (\<lambda>b. \<not> b) xs) = length xs"
  by (induction xs) auto

lemma null_count_ok_iff: "null_count_ok bm \<longleftrightarrow> null_count bm = size_bitset bm - count_non_null bm"
proof -
  have "length (bits_of bm) = m_size bm" by (simp add: bits_of_def)
  with count_true_false [of "bits_of bm"]
  show ?thesis by (auto simp: null_count_ok_def null_count_def size_bitset_def count_non_null_def)
qed

lemma set_bitset_null_count_ok:
  assumes "set_bitset bm pos v = Inr bm'" and "storage_ok bm" and "null_count_ok bm"
  shows "null_count_ok bm'"
proof -
  from assms(1) have p: "pos < m_size bm" by (auto simp: set_bitset_def split: if_splits)
  then have "pos < length (bits_of bm)" "bits_of bm ! pos = raw_bit bm pos"
    by (simp_all add: bits_of_def)
  with count_false_update [of pos "bits_of bm" v] set_bitset_null_count [OF assms(1)] assms(3)
  show ?thesis by (simp add: null_count_ok_def bits_of_set [OF assms(1,2)])
qed


lemma bool_range_loop_props:
  assumes "storage_ok bm" and "i + length r \<le> m_size bm" and "null_count_ok bm"
  shows "\<exists>bm'. bool_range_loop r i bm = Inr bm' \<and> m_size bm' = m_size bm \<and> storage_ok bm'
      \<and> null_count_ok bm'
      \<and> (\<forall>j < m_size bm. bits_of bm' ! j =
            (if i \<le> j \<and> j < i + length r \<and> \<not> r ! (j - i) then False else bits_of bm ! j))"
  using assms
proof (induction r arbitrary: i bm)
  case Nil
  then show ?case by auto
next
  case (Cons v r)
  show ?case
  proof (cases v)
    case True
    from Cons.prems have "Suc i + length r \<le> m_size bm" by simp
    from Cons.IH [OF Cons.prems(1) this Cons.prems(3)]
    obtain bm' where b: "bool_range_loop r (Suc i) bm = Inr bm'" "m_size bm' = m_size bm"
      "storage_ok bm'" "null_count_ok bm'"
      "\<forall>j < m_size bm. bits_of bm' ! j =
            (if Suc i \<le> j \<and> j < Suc i + length r \<and> \<not> r ! (j - Suc i) then False else bits_of bm ! j)"
      by blast
    have "\<forall>j < m_size bm. bits_of bm' ! j =
            (if i \<le> j \<and> j < i + length (v # r) \<and> \<not> (v # r) ! (j - i) then False else bits_of bm ! j)"
    proof (intro allI impI)
      fix j assume j: "j < m_size bm"
      show "bits_of bm' ! j =
            (if i \<le> j \<and> j < i + length (v # r) \<and> \<not> (v # r) ! (j - i) then False else bits_of bm ! j)"
      proof (cases "j = i")
        case True
        with b(5) j \<open>v\<close> show ?thesis by simp
      next
        case False
        then have "i \<le> j \<Longrightarrow> (v # r) ! (j - i) = r ! (j - Suc i)"
          by (simp add: nth_Cons') 
        with b(5) j False show ?thesis by (auto simp: Suc_le_eq)
      qed
    qed
    with b True show ?thesis by simp
  next
    case False
    from Cons.prems have i: "i < m_size bm" by simp
    from set_bitset_ok [OF Cons.prems(1) i]
    obtain bm1 where s: "set_bitset bm i False = Inr bm1" by blast
    have s1: "m_size bm1 = m_size bm" using set_bitset_size [OF s] by simp
    have s2: "storage_ok bm1" by (rule set_bitset_storage_ok [OF s Cons.prems(1)])
    have s3: "null_count_ok bm1" by (rule set_bitset_null_count_ok [OF s Cons.prems(1,3)])
    have s4: "bits_of bm1 = (bits_of bm)[i := False]" by (rule bits_of_set [OF s Cons.prems(1)])
    from Cons.prems s1 have "Suc i + length r \<le> m_size bm1" by simp
    from Cons.IH [OF s2 this s3]
    obtain bm' where b: "bool_range_loop r (Suc i) bm1 = Inr bm'" "m_size bm' = m_size bm1"
      "storage_ok bm'" "null_count_ok bm'"
      "\<forall>j < m_size bm1. bits_of bm' ! j =
            (if Suc i \<le> j \<and> j < Suc i + length r \<and> \<not> r ! (j - Suc i) then False else bits_of bm1 ! j)"
      by blast
    have "\<forall>j < m_size bm. bits_of bm' ! j =
            (if i \<le> j \<and> j < i + length (v # r) \<and> \<not> (v # r) ! (j - i) then False else bits_of bm ! j)"
    proof (intro allI impI)
      fix j assume j: "j < m_size bm"
      then have jl: "j < length (bits_of bm)" by (simp add: bits_of_def)
      show "bits_of bm' ! j =
            (if i \<le> j \<and> j < i + length (v # r) \<and> \<not> (v # r) ! (j - i) then False else bits_of bm ! j)"
      proof (cases "j = i")
        case True
        with b(5) j s1 s4 jl \<open>\<not> v\<close> show ?thesis by simp
      next
        case False
        then have "i \<le> j \<Longrightarrow> (v # r) ! (j - i) = r ! (j - Suc i)"
          by (simp add: nth_Cons') 
        with b(5) j s1 s4 jl False show ?thesis by (auto simp: Suc_le_eq)
      qed
    qed
    with b s s1 False show ?thesis by simp
  qed
qed

lemma fill_fields:
  "m_size (dynamic_bitset_fill n v) = n"
  "m_null_count (dynamic_bitset_fill n v) = (if v then 0 else n)"
  by (simp_all add: dynamic_bitset_fill_def)

lemma null_count_ok_fill: "null_count_ok (dynamic_bitset_fill n v)"
  by (cases v) (simp_all add: null_count_ok_def bits_of_fill fill_fields)

lemma bool_range_loop_fill:
  assumes "length r = n"
  shows "\<exists>bm. bool_range_loop r 0 (dynamic_bitset_fill n True) = Inr bm \<and> m_size bm = n
     \<and> storage_ok bm \<and> null_count_ok bm \<and> bits_of bm = r"
proof -
  let ?f = "dynamic_bitset_fill n True"
  have n: "m_size ?f = n" by (simp add: dynamic_bitset_fill_def)
  have "0 + length r \<le> m_size ?f" using assms n by simp
  from bool_range_loop_props [OF storage_ok_fill this null_count_ok_fill]
  obtain bm where b: "bool_range_loop r 0 ?f = Inr bm" "m_size bm = m_size ?f" "storage_ok bm"
    "null_count_ok bm"
    "\<forall>j < m_size ?f. bits_of bm ! j =
        (if 0 \<le> j \<and> j < 0 + length r \<and> \<not> r ! (j - 0) then False else bits_of ?f ! j)"
    by blast
  have "bits_of bm = r"
  proof (rule nth_equalityI)
    show "length (bits_of bm) = length r" using b(2) n assms by (simp add: bits_of_def)
  next
    fix j assume "j < length (bits_of bm)"
    then have j: "j < n" using b(2) n by (simp add: bits_of_def)
    with b(5) n assms show "bits_of bm ! j = r ! j" by (simp add: bits_of_fill)
  qed
  with b n show ?thesis by simp
qed

lemma range_ctor_loop_eq: "range_ctor_loop r i bm = bool_range_loop r i bm"
  by (induction r arbitrary: i bm) (auto split: sum.splits)

lemma index_range_loop_eq:
  "index_range_loop (map (\<lambda>b. if b then 1 else 0) r) i bm = bool_range_loop r i bm"
  by (induction r arbitrary: i bm) (auto split: sum.splits)

lemma set_calls_props:
  assumes "storage_ok bm" and "null_count_ok bm" and "\<forall>(i, b) \<in> set cs. i < m_size bm"
  shows "\<exists>bm'. set_calls cs bm = Inr bm' \<and> m_size bm' = m_size bm \<and> storage_ok bm' \<and> null_count_ok bm'"
  using assms
proof (induction cs arbitrary: bm)
  case Nil
  then show ?case by simp
next
  case (Cons c cs)
  obtain i b where c: "c = (i, b)" by (cases c)
  with Cons.prems have i: "i < m_size bm" by simp
  from set_bitset_ok [OF Cons.prems(1) i]
  obtain bm1 where s: "set_bitset bm i b = Inr bm1" by blast
  have s1: "m_size bm1 = m_size bm" using set_bitset_size [OF s] by simp
  have s2: "storage_ok bm1" by (rule set_bitset_storage_ok [OF s Cons.prems(1)])
  have s3: "null_count_ok bm1" by (rule set_bitset_null_count_ok [OF s Cons.prems(1,2)])
  from Cons.prems(3) s1 have "\<forall>(i, b) \<in> set cs. i < m_size bm1" by simp
  from Cons.IH [OF s2 s3 this] s s1 c show ?case by simp
qed

lemma raw_bit_pack:
  assumes "i < length bs"
  shows "bit (pack_bits bs ! block_index i) (bit_index i) = bs ! i"
proof -
  have k: "block_index i < compute_block_count (length bs)"
    by (rule block_index_less [OF assms])
  have "bit_index i < 8" by (rule bit_index_less)
  moreover have "block_index i * 8 + bit_index i = i"
    by (simp add: block_index_def bit_index_def bits_per_block_def)
  ultimately show ?thesis
    using k assms
    by (simp add: pack_bits_def bit_horner_sum_bit_word_iff bits_per_block_def) arith
qed


text \<open>
  Claim C9, as amended. For every requested size \<open>n\<close> and every bitmap \<open>b\<close> with
  \<open>b.size() > 0\<close> that is passed as a const reference or as an rvalue,
  \<open>ensure_validity_bitmap(n, b)\<close> returns \<open>b\<close> unchanged (storage, size and null count),
  whatever \<open>n\<close> is: neither of the two overloads that take a \<open>validity_bitmap\<close> compares
  \<open>b.size()\<close> with \<open>n\<close>.
\<close>

theorem ensure_validity_bitmap_nonempty_unchanged:
  assumes "0 < size_bitset b"
  shows "ensure_validity_bitmap_cref n b = b \<and> ensure_validity_bitmap_rvalue n b = b"
  using assms by (simp add: ensure_validity_bitmap_cref_def ensure_validity_bitmap_rvalue_def)

text \<open>
  A bitmap of size 3 normalised for the requested size 10 comes back as it was.
\<close>

theorem ensure_validity_bitmap_nonempty_unchanged_witness:
  "0 < size_bitset \<lparr>m_buffer = [5], m_size = 3, m_null_count = 1\<rparr>
   \<and> ensure_validity_bitmap_cref 10 \<lparr>m_buffer = [5], m_size = 3, m_null_count = 1\<rparr>
       = \<lparr>m_buffer = [5], m_size = 3, m_null_count = 1\<rparr>
   \<and> ensure_validity_bitmap_rvalue 10 \<lparr>m_buffer = [5], m_size = 3, m_null_count = 1\<rparr>
       = \<lparr>m_buffer = [5], m_size = 3, m_null_count = 1\<rparr>"
proof -
  have h: "0 < size_bitset \<lparr>m_buffer = [5], m_size = 3, m_null_count = 1\<rparr>"
    by (simp add: size_bitset_def)
  from h ensure_validity_bitmap_nonempty_unchanged [OF h, of 10] show ?thesis by simp
qed

text \<open>
  What the call on a non-const lvalue does with a bitmap that is not empty: the size
  assertion of the overload for ranges of booleans, then a bitmap built again from the
  bits.
\<close>

lemma ensure_validity_bitmap_lvalue_rebuilds:
  assumes "0 < size_bitset b"
  shows "(n \<noteq> size_bitset b \<longrightarrow> ensure_validity_bitmap_lvalue n b = Inl assertion_failed)
       \<and> (n = size_bitset b \<longrightarrow>
            (\<exists>bm. ensure_validity_bitmap_lvalue n b = Inr bm \<and> size_bitset bm = n
               \<and> bits_of bm = bits_of b
               \<and> null_count bm = length (filter (\<lambda>v. \<not> v) (bits_of b))))"
proof -
  have l: "length (bits_of b) = size_bitset b" by (simp add: bits_of_def size_bitset_def)
  have 1: "ensure_validity_bitmap_lvalue n b = Inl assertion_failed" if "n \<noteq> size_bitset b"
    using that assms l
    by (simp add: ensure_validity_bitmap_lvalue_def ensure_validity_bitmap_bools_def)
  have 2: "\<exists>bm. ensure_validity_bitmap_lvalue n b = Inr bm \<and> size_bitset bm = n
               \<and> bits_of bm = bits_of b
               \<and> null_count bm = length (filter (\<lambda>v. \<not> v) (bits_of b))"
    if n: "n = size_bitset b"
  proof -
    from n l have "length (bits_of b) = n" by simp
    from bool_range_loop_fill [OF this]
    obtain bm where bm: "bool_range_loop (bits_of b) 0 (dynamic_bitset_fill n True) = Inr bm"
      "m_size bm = n" "null_count_ok bm" "bits_of bm = bits_of b" by blast
    from bm(3,4) have "null_count bm = length (filter (\<lambda>v. \<not> v) (bits_of b))"
      by (simp add: null_count_ok_def null_count_def)
    with bm n l show ?thesis
      by (simp add: ensure_validity_bitmap_lvalue_def ensure_validity_bitmap_bools_def
          size_bitset_def)
  qed
  from 1 2 show ?thesis by blast
qed

lemma bits_of_example:
  "bits_of \<lparr>m_buffer = [5], m_size = 3, m_null_count = 1\<rparr> = [True, False, True]"
  by (simp add: bits_of_def raw_bit_def block_index_def bit_index_def bits_per_block_def
      upt_rec bit_numeral_Bit0_Suc_iff bit_numeral_Bit1_Suc_iff numeral_3_eq_3)

text \<open>
  Claim C9 as stated fails for a bitmap passed as a non-const lvalue: the bitmap of
  size 3 with storage 5 is not returned for the requested size 10, where the size
  assertion fails, and for the requested size 3 it comes back rebuilt, with storage
  253.
\<close>

theorem ensure_validity_bitmap_lvalue_counterexample:
  "0 < size_bitset \<lparr>m_buffer = [5], m_size = 3, m_null_count = 1\<rparr>
   \<and> ensure_validity_bitmap_lvalue 10 \<lparr>m_buffer = [5], m_size = 3, m_null_count = 1\<rparr>
       = Inl assertion_failed
   \<and> ensure_validity_bitmap_lvalue 3 \<lparr>m_buffer = [5], m_size = 3, m_null_count = 1\<rparr>
       = Inr \<lparr>m_buffer = [253], m_size = 3, m_null_count = 1\<rparr>
   \<and> \<lparr>m_buffer = [253], m_size = 3, m_null_count = 1\<rparr>
       \<noteq> \<lparr>m_buffer = [5 :: byte], m_size = 3, m_null_count = 1\<rparr>"
proof -
  let ?b = "\<lparr>m_buffer = [5], m_size = 3, m_null_count = 1\<rparr>"
  have 0: "0 < size_bitset ?b" by (simp add: size_bitset_def)
  have 1: "ensure_validity_bitmap_lvalue 10 ?b = Inl assertion_failed"
    unfolding ensure_validity_bitmap_lvalue_def bits_of_example
    by (simp add: ensure_validity_bitmap_bools_def)
  have 2: "ensure_validity_bitmap_lvalue 3 ?b
      = Inr \<lparr>m_buffer = [253], m_size = 3, m_null_count = 1\<rparr>"
    unfolding ensure_validity_bitmap_lvalue_def bits_of_example
    by (simp add: ensure_validity_bitmap_bools_def dynamic_bitset_fill_def
        compute_block_count_def set_bitset_def block_index_def bit_index_def
        bits_per_block_def bit_mask_def Let_def)
  have 3: "\<lparr>m_buffer = [253], m_size = 3, m_null_count = 1\<rparr>
       \<noteq> \<lparr>m_buffer = [5 :: byte], m_size = 3, m_null_count = 1\<rparr>" by simp
  from 0 1 2 3 show ?thesis by blast
qed

lemma test_fill_True: "i < n \<Longrightarrow> test (dynamic_bitset_fill n True) i = Inr True"
  using block_index_less [of i n] raw_bit_fill_True [of i n]
  by (simp add: test_def fill_fields) (simp add: dynamic_bitset_fill_def)

lemma resize_empty:
  assumes "m_size bm = 0"
  shows "resize bm n True =
    \<lparr>m_buffer = pack_bits (replicate n True), m_size = n, m_null_count = 0\<rparr>"
  using assms by (simp add: resize_def bits_of_def)

lemma test_resize_empty:
  assumes "m_size bm = 0" and "i < n"
  shows "test (resize bm n True) i = Inr True"
proof -
  have "block_index i < length (pack_bits (replicate n True))"
    using block_index_less [OF assms(2)] by (simp add: pack_bits_def)
  moreover have "bit (pack_bits (replicate n True) ! block_index i) (bit_index i)"
    using raw_bit_pack [of i "replicate n True"] assms(2) by simp
  ultimately show ?thesis
    using assms by (simp add: resize_empty test_def raw_bit_def)
qed

text \<open>
  Claim C6. For every length \<open>n\<close>, \<open>ensure_validity_bitmap(n, bitmap)\<close> on a bitmap of size
  0 gives, through either overload, a bitmap of size \<open>n\<close> whose \<open>n\<close> bits all test true and
  whose null count is 0.
\<close>

theorem ensure_validity_bitmap_empty_all_valid:
  assumes "size_bitset bitmap = 0"
  shows "size_bitset (ensure_validity_bitmap_cref n bitmap) = n
       \<and> (\<forall>i<n. test (ensure_validity_bitmap_cref n bitmap) i = Inr True)
       \<and> null_count (ensure_validity_bitmap_cref n bitmap) = 0
       \<and> size_bitset (ensure_validity_bitmap_rvalue n bitmap) = n
       \<and> (\<forall>i<n. test (ensure_validity_bitmap_rvalue n bitmap) i = Inr True)
       \<and> null_count (ensure_validity_bitmap_rvalue n bitmap) = 0"
proof -
  from assms have m: "m_size bitmap = 0" by (simp add: size_bitset_def)
  have c: "ensure_validity_bitmap_cref n bitmap = dynamic_bitset_fill n True"
    using assms by (simp add: ensure_validity_bitmap_cref_def)
  have r: "ensure_validity_bitmap_rvalue n bitmap = resize bitmap n True"
    using assms by (simp add: ensure_validity_bitmap_rvalue_def)
  have "size_bitset (resize bitmap n True) = n" "null_count (resize bitmap n True) = 0"
    by (simp_all add: resize_empty [OF m] size_bitset_def null_count_def)
  moreover have "size_bitset (dynamic_bitset_fill n True) = n"
    "null_count (dynamic_bitset_fill n True) = 0"
    by (simp_all add: size_bitset_def null_count_def fill_fields)
  ultimately show ?thesis
    unfolding c r by (simp add: test_fill_True test_resize_empty [OF m])
qed

text \<open>
  The default-constructed bitmap normalised to length 3.
\<close>

theorem ensure_validity_bitmap_empty_all_valid_witness:
  "size_bitset dynamic_bitset_empty = 0
   \<and> size_bitset (ensure_validity_bitmap_cref 3 dynamic_bitset_empty) = 3
   \<and> test (ensure_validity_bitmap_cref 3 dynamic_bitset_empty) 2 = Inr True
   \<and> null_count (ensure_validity_bitmap_cref 3 dynamic_bitset_empty) = 0
   \<and> size_bitset (ensure_validity_bitmap_rvalue 3 dynamic_bitset_empty) = 3
   \<and> test (ensure_validity_bitmap_rvalue 3 dynamic_bitset_empty) 2 = Inr True
   \<and> null_count (ensure_validity_bitmap_rvalue 3 dynamic_bitset_empty) = 0"
proof -
  have h: "size_bitset dynamic_bitset_empty = 0"
    by (simp add: size_bitset_def dynamic_bitset_empty_def)
  from h ensure_validity_bitmap_empty_all_valid [OF h, of 3] show ?thesis by simp
qed

text \<open>
  Claim C8. For every boolean sequence \<open>bs\<close> of length \<open>n\<close>, the overload for ranges of
  unsigned markers, applied to the markers \<open>1\<close> for true and \<open>0\<close> for false, and the
  overload for ranges of booleans, applied to \<open>bs\<close>, return the same bitmap (the same
  storage, size and null count); it has size \<open>n\<close>, its bits are \<open>bs\<close> and its null count is
  the number of false entries.
\<close>

theorem ensure_validity_bitmap_sources_agree:
  assumes "length bs = n"
  shows "ensure_validity_bitmap_indices n (map (\<lambda>b. if b then 1 else 0) bs :: 'a::len word list)
           = ensure_validity_bitmap_bools n bs
       \<and> (\<exists>bm. ensure_validity_bitmap_bools n bs = Inr bm \<and> size_bitset bm = n
             \<and> bits_of bm = bs \<and> null_count bm = length (filter (\<lambda>b. \<not> b) bs))"
proof -
  from bool_range_loop_fill [OF assms]
  obtain bm where b: "bool_range_loop bs 0 (dynamic_bitset_fill n True) = Inr bm" "m_size bm = n"
    "null_count_ok bm" "bits_of bm = bs"
    by blast
  have "ensure_validity_bitmap_bools n bs = Inr bm"
    using assms b(1) by (simp add: ensure_validity_bitmap_bools_def)
  moreover have "ensure_validity_bitmap_indices n (map (\<lambda>b. if b then 1 else 0) bs :: 'a word list)
       = Inr bm"
    using b(1) by (simp add: ensure_validity_bitmap_indices_def index_range_loop_eq)
  moreover have "null_count bm = length (filter (\<lambda>b. \<not> b) bs)"
    using b(3,4) by (simp add: null_count_ok_def null_count_def)
  ultimately show ?thesis using b(2,4) by (simp add: size_bitset_def)
qed

text \<open>
  The sequence true, false, true against the 64-bit markers 1, 0, 1.
\<close>

theorem ensure_validity_bitmap_sources_agree_witness:
  "length [True, False, True] = 3
   \<and> ensure_validity_bitmap_indices 3 [1, 0, 1 :: 64 word]
       = ensure_validity_bitmap_bools 3 [True, False, True]
   \<and> (\<exists>bm. ensure_validity_bitmap_bools 3 [True, False, True] = Inr bm \<and> size_bitset bm = 3
         \<and> bits_of bm = [True, False, True] \<and> null_count bm = 1)"
proof -
  have h: "length [True, False, True] = 3" by simp
  from ensure_validity_bitmap_sources_agree [OF h, where 'a = 64] show ?thesis by simp
qed

text \<open>
  Claim C3. The bitmap \<open>dynamic_bitset(n, v)\<close> satisfies
  \<open>null_count() == size() - popcount(bits)\<close>. The bitmap constructed from a boolean sequence \<open>bs\<close> has \<open>bs\<close> as its bits and
  the number of false entries of \<open>bs\<close> as its \<open>null_count()\<close>; and after any sequence of
  \<open>set(i, b)\<close> calls with indices inside the bitmap, every call succeeds and
  \<open>null_count() == size() - popcount(bits)\<close> holds, the population count being recomputed
  by a scan of the logical bits.
\<close>

theorem validity_bitmap_null_count_invariant:
  assumes "\<forall>(i, b) \<in> set calls. i < length bs"
  shows "null_count (dynamic_bitset_fill n v)
           = size_bitset (dynamic_bitset_fill n v) - count_non_null (dynamic_bitset_fill n v)
       \<and> (\<exists>bm bm'. dynamic_bitset_range bs = Inr bm
       \<and> size_bitset bm = length bs \<and> bits_of bm = bs
       \<and> null_count bm = length (filter (\<lambda>b. \<not> b) bs)
       \<and> null_count bm = size_bitset bm - count_non_null bm
       \<and> set_calls calls bm = Inr bm'
       \<and> size_bitset bm' = length bs
       \<and> null_count bm' = size_bitset bm' - count_non_null bm')"
proof -
  from bool_range_loop_fill [OF refl, of bs]
  obtain bm where b: "bool_range_loop bs 0 (dynamic_bitset_fill (length bs) True) = Inr bm"
    "m_size bm = length bs" "storage_ok bm" "null_count_ok bm" "bits_of bm = bs"
    by blast
  have 1: "dynamic_bitset_range bs = Inr bm"
    using b(1) by (simp add: dynamic_bitset_range_def range_ctor_loop_eq)
  have 2: "null_count bm = length (filter (\<lambda>b. \<not> b) bs)"
    using b(4,5) by (simp add: null_count_ok_def null_count_def)
  from assms b(2) have "\<forall>(i, b) \<in> set calls. i < m_size bm" by simp
  from set_calls_props [OF b(3,4) this]
  obtain bm' where c: "set_calls calls bm = Inr bm'" "m_size bm' = m_size bm" "null_count_ok bm'"
    by blast
  have 3: "null_count bm = size_bitset bm - count_non_null bm"
    using b(4) by (simp add: null_count_ok_iff)
  have 4: "null_count bm' = size_bitset bm' - count_non_null bm'"
    using c(3) by (simp add: null_count_ok_iff)
  have 5: "null_count (dynamic_bitset_fill n v)
           = size_bitset (dynamic_bitset_fill n v) - count_non_null (dynamic_bitset_fill n v)"
    using null_count_ok_fill [of n v] by (simp add: null_count_ok_iff)
  from 1 2 3 4 b(2,5) c(1,2) have "\<exists>bm bm'. dynamic_bitset_range bs = Inr bm
       \<and> size_bitset bm = length bs \<and> bits_of bm = bs
       \<and> null_count bm = length (filter (\<lambda>b. \<not> b) bs)
       \<and> null_count bm = size_bitset bm - count_non_null bm
       \<and> set_calls calls bm = Inr bm'
       \<and> size_bitset bm' = length bs
       \<and> null_count bm' = size_bitset bm' - count_non_null bm'"
    by (simp add: size_bitset_def)
  with 5 show ?thesis by blast
qed

text \<open>
  The sequence true, false, true followed by four calls, one of them repeated.
\<close>

theorem validity_bitmap_null_count_invariant_witness:
  "null_count (dynamic_bitset_fill 3 False)
     = size_bitset (dynamic_bitset_fill 3 False) - count_non_null (dynamic_bitset_fill 3 False)
 \<and> (\<exists>bm bm'. dynamic_bitset_range [True, False, True] = Inr bm
       \<and> size_bitset bm = length [True, False, True] \<and> bits_of bm = [True, False, True]
       \<and> null_count bm = length (filter (\<lambda>b. \<not> b) [True, False, True])
       \<and> null_count bm = size_bitset bm - count_non_null bm
       \<and> set_calls [(1, True), (0, False), (2, False), (2, False)] bm = Inr bm'
       \<and> size_bitset bm' = length [True, False, True]
       \<and> null_count bm' = size_bitset bm' - count_non_null bm')"
proof -
  have h: "\<forall>(i, b) \<in> set [(1, True), (0, False), (2, False), (2, False)].
             i < length [True, False, True]"
    by simp
  show ?thesis by (rule validity_bitmap_null_count_invariant [OF h])
qed

section \<open>Properties of \<open>offset_from_sizes\<close>\<close>








section \<open>Properties of \<open>fixed_size_layout\<close>\<close>

lemma fixed_size_layout_Inr:
  assumes "fixed_size_layout ad = Inr l"
  shows "p_data l = ad" and "0 < length (ad_buffers ad)"
    and "ad_length ad = int (m_size (ad_bitmap ad))"
  using assms by (auto simp: fixed_size_layout_def size_bitset_def split: if_splits)

text \<open>
  Claim C10. For every \<open>fixed_size_layout<T>\<close> constructed over an \<open>array_data\<close> with
  \<open>offset <= length\<close>, \<open>size()\<close> returns \<open>length - offset\<close>, and for \<open>i < size()\<close> both
  \<open>value(i)\<close> and \<open>operator[](i)\<close> read buffer 0 at position \<open>i + offset\<close>: the element
  there when the position is inside the buffer, paired by \<open>operator[]\<close> with the bit
  \<open>i + offset\<close> of the bitmap.
\<close>

theorem fixed_size_layout_size_and_access:
  assumes "fixed_size_layout ad = Inr l" and "ad_offset ad \<le> ad_length ad"
  shows "size_fixed l = Inr (nat (ad_length ad - ad_offset ad))
       \<and> (\<forall>i < nat (ad_length ad - ad_offset ad).
             value_fixed l i = buffer_at (ad_buffers ad ! 0) (int i + ad_offset ad)
           \<and> subscript_fixed l i =
               (case buffer_at (ad_buffers ad ! 0) (int i + ad_offset ad) of
                  Inl e \<Rightarrow> Inl e
                | Inr v \<Rightarrow> (case has_value_fixed l i of
                              Inl e \<Rightarrow> Inl e
                            | Inr h \<Rightarrow> Inr (v, h)))
           \<and> (0 \<le> ad_offset ad \<and> i + nat (ad_offset ad) < length (ad_buffers ad ! 0) \<longrightarrow>
                value_fixed l i = Inr (ad_buffers ad ! 0 ! (i + nat (ad_offset ad)))
              \<and> subscript_fixed l i =
                 (case test (ad_bitmap ad) (i + nat (ad_offset ad)) of
                    Inl e \<Rightarrow> Inl e
                  | Inr h \<Rightarrow> Inr (ad_buffers ad ! 0 ! (i + nat (ad_offset ad)), h))))"
proof -
  note l = fixed_size_layout_Inr [OF assms(1)]
  have sz: "size_fixed l = Inr (nat (ad_length ad - ad_offset ad))"
    using assms(2) l(1) by (simp add: size_fixed_def)
  have d: "data_fixed l = Inr (ad_buffers ad ! 0)"
    using l(1,2) by (simp add: data_fixed_def)
  {
    fix i assume i: "i < nat (ad_length ad - ad_offset ad)"
    have v: "value_fixed l i = buffer_at (ad_buffers ad ! 0) (int i + ad_offset ad)"
      using i sz d l(1) by (simp add: value_fixed_def)
    have s: "subscript_fixed l i =
               (case buffer_at (ad_buffers ad ! 0) (int i + ad_offset ad) of
                  Inl e \<Rightarrow> Inl e
                | Inr v \<Rightarrow> (case has_value_fixed l i of
                              Inl e \<Rightarrow> Inl e
                            | Inr h \<Rightarrow> Inr (v, h)))"
      using i sz v by (simp add: subscript_fixed_def)
    {
      assume o: "0 \<le> ad_offset ad" and b: "i + nat (ad_offset ad) < length (ad_buffers ad ! 0)"
      have n: "nat (int i + ad_offset ad) = i + nat (ad_offset ad)" using o by simp
      have v': "buffer_at (ad_buffers ad ! 0) (int i + ad_offset ad)
                  = Inr (ad_buffers ad ! 0 ! (i + nat (ad_offset ad)))"
        using o b n by (simp add: buffer_at_def)
      have h: "has_value_fixed l i = test (ad_bitmap ad) (i + nat (ad_offset ad))"
        using i sz o n l(1) by (simp add: has_value_fixed_def)
      have "value_fixed l i = Inr (ad_buffers ad ! 0 ! (i + nat (ad_offset ad)))
          \<and> subscript_fixed l i =
                 (case test (ad_bitmap ad) (i + nat (ad_offset ad)) of
                    Inl e \<Rightarrow> Inl e
                  | Inr h \<Rightarrow> Inr (ad_buffers ad ! 0 ! (i + nat (ad_offset ad)), h))"
        using v s v' h by simp
    }
    note this v s
  }
  with sz show ?thesis by blast
qed


text \<open>
  Three elements 10, 20, 30 viewed from offset 1: two elements, the second being 30.
\<close>

theorem fixed_size_layout_size_and_access_witness:
  "fixed_size_layout \<lparr>ad_length = 3, ad_offset = 1, ad_bitmap = dynamic_bitset_fill 3 True,
       ad_buffers = [[10, 20, 30 :: int]]\<rparr>
     = Inr \<lparr>p_data = \<lparr>ad_length = 3, ad_offset = 1, ad_bitmap = dynamic_bitset_fill 3 True,
       ad_buffers = [[10, 20, 30 :: int]]\<rparr>\<rparr>
   \<and> size_fixed \<lparr>p_data = \<lparr>ad_length = 3, ad_offset = 1,
         ad_bitmap = dynamic_bitset_fill 3 True, ad_buffers = [[10, 20, 30 :: int]]\<rparr>\<rparr> = Inr 2
   \<and> value_fixed \<lparr>p_data = \<lparr>ad_length = 3, ad_offset = 1,
         ad_bitmap = dynamic_bitset_fill 3 True, ad_buffers = [[10, 20, 30 :: int]]\<rparr>\<rparr> 1 = Inr 30
   \<and> subscript_fixed \<lparr>p_data = \<lparr>ad_length = 3, ad_offset = 1,
         ad_bitmap = dynamic_bitset_fill 3 True, ad_buffers = [[10, 20, 30 :: int]]\<rparr>\<rparr> 1
       = Inr (30, True)"
proof -
  let ?ad = "\<lparr>ad_length = 3, ad_offset = 1, ad_bitmap = dynamic_bitset_fill 3 True,
       ad_buffers = [[10, 20, 30 :: int]]\<rparr>"
  have c: "fixed_size_layout ?ad = Inr \<lparr>p_data = ?ad\<rparr>"
    by (simp add: fixed_size_layout_def size_bitset_def dynamic_bitset_fill_def)
  have o: "ad_offset ?ad \<le> ad_length ?ad" by simp
  have t: "test (dynamic_bitset_fill 3 True) 2 = Inr True"
    by (simp add: test_def dynamic_bitset_fill_def compute_block_count_def bits_per_block_def
        block_index_def bit_index_def raw_bit_def bit_simps)
  from fixed_size_layout_size_and_access [OF c o]
  have "size_fixed \<lparr>p_data = ?ad\<rparr> = Inr (nat (ad_length ?ad - ad_offset ?ad))"
    and "\<forall>i < nat (ad_length ?ad - ad_offset ?ad).
           (0 \<le> ad_offset ?ad \<and> i + nat (ad_offset ?ad) < length (ad_buffers ?ad ! 0) \<longrightarrow>
                value_fixed \<lparr>p_data = ?ad\<rparr> i = Inr (ad_buffers ?ad ! 0 ! (i + nat (ad_offset ?ad)))
              \<and> subscript_fixed \<lparr>p_data = ?ad\<rparr> i =
                 (case test (ad_bitmap ?ad) (i + nat (ad_offset ?ad)) of
                    Inl e \<Rightarrow> Inl e
                  | Inr h \<Rightarrow> Inr (ad_buffers ?ad ! 0 ! (i + nat (ad_offset ?ad)), h)))"
    by blast+
  from this(1) this(2) [rule_format, of 1] c t show ?thesis
    by (simp add: numeral_2_eq_2)
qed

section \<open>Properties of the factory\<close>

lemma array_factory_one_char:
  assumes "format p = [c]"
  shows "array_factory p =
     (if c = CHR ''n'' then Inr (Null_array p)
      else if c = CHR ''b'' then Inr (Primitive_array BOOL p)
      else if c = CHR ''c'' then Inr (Primitive_array INT8 p)
      else if c = CHR ''C'' then Inr (Primitive_array UINT8 p)
      else if c = CHR ''s'' then Inr (Primitive_array INT16 p)
      else if c = CHR ''S'' then Inr (Primitive_array UINT16 p)
      else if c = CHR ''i'' then Inr (Primitive_array INT32 p)
      else if c = CHR ''I'' then Inr (Primitive_array UINT32 p)
      else if c = CHR ''l'' then Inr (Primitive_array INT64 p)
      else if c = CHR ''L'' then Inr (Primitive_array UINT64 p)
      else if c = CHR ''f'' then Inr (Primitive_array FLOAT p)
      else if c = CHR ''d'' then Inr (Primitive_array DOUBLE p)
      else Inl (runtime_error ''Unsupported format''))"
  using assms by (cases p) (simp add: Let_def)

lemma array_factory_list:
  assumes "format p = ''+l'' \<or> format p = ''+L''"
  shows "array_factory p = map_sum id List_layout (list_array_impl (format p = ''+L'') p)"
  using assms by (cases p) (auto simp add: Let_def list_array_impl_def make_flat_array_def)

lemma array_factory_other:
  assumes "length (format p) \<noteq> 1" and "format p \<noteq> ''+l''" and "format p \<noteq> ''+L''"
  shows "array_factory p = Inl (runtime_error ''Unsupported format'')"
  using assms by (cases p) (simp add: Let_def)

lemma list_array_impl_Inr:
  assumes "children p = c # cs" and "array_factory c = Inr flat"
    and "OFFSET_BUFFER_INDEX < length (buffers p)"
  shows "list_array_impl big p =
     Inr (List_array_impl big p flat (buffers p ! OFFSET_BUFFER_INDEX, proxy_offset p))"
  using assms
  by (simp add: list_array_impl_def list_array_impl_from_def make_flat_array_def
      make_list_offsets_def)

text \<open>
  Claim C1, as amended. For every proxy, \<open>array_factory\<close> maps each of the twelve
  one-character formats to its layout (\<open>"n"\<close> to \<open>null_array\<close>, \<open>"i"\<close> to the primitive
  array of 32-bit signed integers, and so on), maps exactly \<open>"+l"\<close> to what the
  constructor of \<open>list_array\<close> gives and exactly \<open>"+L"\<close> to what that of \<open>big_list_array\<close>
  gives (a list array over the layout that the factory creates from the first child,
  with its offsets pointer into buffer 1, when there is such a child, the factory
  accepts it and buffer 1 exists), and fails with the runtime error
  \<open>"Unsupported format"\<close> for every other format: the list-view and fixed-size-list
  formats among them.
\<close>

theorem array_factory_dispatch:
  "(format p = ''n'' \<longrightarrow> array_factory p = Inr (Null_array p))
 \<and> (format p = ''b'' \<longrightarrow> array_factory p = Inr (Primitive_array BOOL p))
 \<and> (format p = ''c'' \<longrightarrow> array_factory p = Inr (Primitive_array INT8 p))
 \<and> (format p = ''C'' \<longrightarrow> array_factory p = Inr (Primitive_array UINT8 p))
 \<and> (format p = ''s'' \<longrightarrow> array_factory p = Inr (Primitive_array INT16 p))
 \<and> (format p = ''S'' \<longrightarrow> array_factory p = Inr (Primitive_array UINT16 p))
 \<and> (format p = ''i'' \<longrightarrow> array_factory p = Inr (Primitive_array INT32 p))
 \<and> (format p = ''I'' \<longrightarrow> array_factory p = Inr (Primitive_array UINT32 p))
 \<and> (format p = ''l'' \<longrightarrow> array_factory p = Inr (Primitive_array INT64 p))
 \<and> (format p = ''L'' \<longrightarrow> array_factory p = Inr (Primitive_array UINT64 p))
 \<and> (format p = ''f'' \<longrightarrow> array_factory p = Inr (Primitive_array FLOAT p))
 \<and> (format p = ''d'' \<longrightarrow> array_factory p = Inr (Primitive_array DOUBLE p))
 \<and> (format p = ''+l'' \<longrightarrow>
       array_factory p = map_sum id List_layout (list_array_impl False p))
 \<and> (format p = ''+L'' \<longrightarrow>
       array_factory p = map_sum id List_layout (list_array_impl True p))
 \<and> (\<forall>big c cs flat. children p = c # cs \<and> array_factory c = Inr flat
         \<and> OFFSET_BUFFER_INDEX < length (buffers p) \<longrightarrow>
       list_array_impl big p =
         Inr (List_array_impl big p flat (buffers p ! OFFSET_BUFFER_INDEX, proxy_offset p)))
 \<and> (format p \<notin> supported_formats \<longrightarrow>
       array_factory p = Inl (runtime_error ''Unsupported format''))"
proof -
  have one: "format p = [c] \<Longrightarrow> array_factory p =
     (if c = CHR ''n'' then Inr (Null_array p)
      else if c = CHR ''b'' then Inr (Primitive_array BOOL p)
      else if c = CHR ''c'' then Inr (Primitive_array INT8 p)
      else if c = CHR ''C'' then Inr (Primitive_array UINT8 p)
      else if c = CHR ''s'' then Inr (Primitive_array INT16 p)
      else if c = CHR ''S'' then Inr (Primitive_array UINT16 p)
      else if c = CHR ''i'' then Inr (Primitive_array INT32 p)
      else if c = CHR ''I'' then Inr (Primitive_array UINT32 p)
      else if c = CHR ''l'' then Inr (Primitive_array INT64 p)
      else if c = CHR ''L'' then Inr (Primitive_array UINT64 p)
      else if c = CHR ''f'' then Inr (Primitive_array FLOAT p)
      else if c = CHR ''d'' then Inr (Primitive_array DOUBLE p)
      else Inl (runtime_error ''Unsupported format''))" for c
    by (rule array_factory_one_char)
  have l: "format p = ''+l'' \<Longrightarrow>
       array_factory p = map_sum id List_layout (list_array_impl False p)"
    using array_factory_list [of p] by simp
  have L: "format p = ''+L'' \<Longrightarrow>
       array_factory p = map_sum id List_layout (list_array_impl True p)"
    using array_factory_list [of p] by simp
  have other: "array_factory p = Inl (runtime_error ''Unsupported format'')"
    if u: "format p \<notin> supported_formats"
  proof (cases "length (format p) = 1")
    case True
    then obtain c where c: "format p = [c]" by (cases "format p") auto
    with u have "c \<noteq> CHR ''n''" "c \<noteq> CHR ''b''" "c \<noteq> CHR ''c''" "c \<noteq> CHR ''C''"
      "c \<noteq> CHR ''s''" "c \<noteq> CHR ''S''" "c \<noteq> CHR ''i''" "c \<noteq> CHR ''I''"
      "c \<noteq> CHR ''l''" "c \<noteq> CHR ''L''" "c \<noteq> CHR ''f''" "c \<noteq> CHR ''d''"
      by (auto simp: supported_formats_def)
    with one [OF c] show ?thesis by simp
  next
    case False
    moreover from u have "format p \<noteq> ''+l''" "format p \<noteq> ''+L''"
      by (auto simp: supported_formats_def)
    ultimately show ?thesis by (rule array_factory_other)
  qed
  show ?thesis
    using one [of "CHR ''n''"] one [of "CHR ''b''"] one [of "CHR ''c''"] one [of "CHR ''C''"]
      one [of "CHR ''s''"] one [of "CHR ''S''"] one [of "CHR ''i''"] one [of "CHR ''I''"]
      one [of "CHR ''l''"] one [of "CHR ''L''"] one [of "CHR ''f''"] one [of "CHR ''d''"]
      l L other list_array_impl_Inr [of p]
    by (intro conjI impI allI; (elim conjE)?; simp)
qed


text \<open>
  The formats \<open>"i"\<close>, \<open>"n"\<close> and \<open>"+q"\<close>, and a list of 32-bit integers.
\<close>

theorem array_factory_dispatch_witness:
  "array_factory (Arrow_proxy ''i'' 3 0 [2, 3] []) =
      Inr (Primitive_array INT32 (Arrow_proxy ''i'' 3 0 [2, 3] []))
 \<and> array_factory (Arrow_proxy ''n'' 3 0 [] []) = Inr (Null_array (Arrow_proxy ''n'' 3 0 [] []))
 \<and> array_factory (Arrow_proxy ''+q'' 3 0 [0, 1] [Arrow_proxy ''i'' 3 0 [2, 3] []]) =
      Inl (runtime_error ''Unsupported format'')
 \<and> array_factory (Arrow_proxy ''+l'' 3 0 [0, 1] [Arrow_proxy ''i'' 3 0 [2, 3] []]) =
      Inr (List_layout (List_array_impl False
        (Arrow_proxy ''+l'' 3 0 [0, 1] [Arrow_proxy ''i'' 3 0 [2, 3] []])
        (Primitive_array INT32 (Arrow_proxy ''i'' 3 0 [2, 3] [])) (1, 0)))"
proof -
  let ?c = "Arrow_proxy ''i'' 3 0 [2, 3] []"
  let ?p = "Arrow_proxy ''+l'' 3 0 [0, 1] [?c]"
  let ?q = "Arrow_proxy ''+q'' 3 0 [0, 1] [?c]"
  let ?n = "Arrow_proxy ''n'' 3 0 [] []"
  have 1: "array_factory ?c = Inr (Primitive_array INT32 ?c)"
    using array_factory_dispatch [of ?c] by simp
  have 2: "array_factory ?n = Inr (Null_array ?n)"
    using array_factory_dispatch [of ?n] by simp
  have 3: "array_factory ?q = Inl (runtime_error ''Unsupported format'')"
    using array_factory_dispatch [of ?q] by (simp add: supported_formats_def)
  have "list_array_impl False ?p = Inr (List_array_impl False ?p (Primitive_array INT32 ?c)
      (buffers ?p ! OFFSET_BUFFER_INDEX, proxy_offset ?p))"
    using array_factory_dispatch [of ?p] 1 by (simp add: OFFSET_BUFFER_INDEX_def)
  then have 4: "array_factory ?p =
      Inr (List_layout (List_array_impl False ?p (Primitive_array INT32 ?c) (1, 0)))"
    using array_factory_dispatch [of ?p] by (simp add: OFFSET_BUFFER_INDEX_def)
  from 1 2 3 4 show ?thesis by simp
qed

text \<open>
  Claim C1 as stated fails: the claim has the list-view formats \<open>"+vl"\<close> and \<open>"+vL"\<close> and
  the fixed-size-list format \<open>"+w:3"\<close> mapped to their layouts, and the factory rejects
  all three, on proxies that carry the buffers and the child those layouts need.
\<close>

theorem array_factory_list_view_counterexample:
  "array_factory (Arrow_proxy ''+vl'' 3 0 [0, 1, 2] [Arrow_proxy ''i'' 3 0 [3, 4] []]) =
      Inl (runtime_error ''Unsupported format'')
 \<and> array_factory (Arrow_proxy ''+vL'' 3 0 [0, 1, 2] [Arrow_proxy ''i'' 3 0 [3, 4] []]) =
      Inl (runtime_error ''Unsupported format'')
 \<and> array_factory (Arrow_proxy ''+w:3'' 1 0 [0] [Arrow_proxy ''i'' 3 0 [3, 4] []]) =
      Inl (runtime_error ''Unsupported format'')
 \<and> list_view_array_impl False (Arrow_proxy ''+vl'' 3 0 [0, 1, 2] [Arrow_proxy ''i'' 3 0 [3, 4] []]) =
      Inr (List_view_array_impl False
        (Arrow_proxy ''+vl'' 3 0 [0, 1, 2] [Arrow_proxy ''i'' 3 0 [3, 4] []])
        (Primitive_array INT32 (Arrow_proxy ''i'' 3 0 [3, 4] [])) (1, 0) (2, 0))"
  by (simp add: list_view_array_impl_def make_flat_array_def make_list_offsets_def
      make_list_sizes_def OFFSET_BUFFER_INDEX_def SIZES_BUFFER_INDEX_def)

section \<open>Properties of \<open>fixed_sized_list_array\<close>\<close>

lemma list_size_from_format_suffix:
  "list_size_from_format (CHR ''+'' # CHR ''w'' # CHR '':'' # suffix) = stoull suffix"
  by (simp add: list_size_from_format_def)

lemma leading_digits_literal:
  assumes "decimal_literal s"
  shows "leading_digits s = s"
proof -
  from assms obtain c cs where s: "s = c # cs" "isdigit c" "list_all isdigit cs"
    by (cases s) (auto simp: decimal_literal_def)
  from s(2) have "\<not> isspace c" "c \<noteq> CHR ''+''" "c \<noteq> CHR ''-''"
    by (auto simp: isdigit_def isspace_def)
  with s show ?thesis
    by (simp add: leading_digits_def strip_sign_def takeWhile_eq_all_conv list_all_iff)
qed

text \<open>
  Claim C5, as amended. Constructing a \<open>fixed_sized_list_array\<close> from a proxy whose format
  is \<open>"+w:"\<close> followed by a suffix, over a child that the factory accepts: when the
  suffix, after optional white space and an optional sign, does not begin with a decimal
  digit (the empty suffix included), the construction fails with
  \<open>std::invalid_argument\<close>; when the leading number is above \<open>2^64 - 1\<close> it fails with
  \<open>std::out_of_range\<close>; in every other case it succeeds, the list size being the leading
  number (for a decimal literal, the literal's value) and the characters after the
  leading digits being ignored.
\<close>

theorem fixed_sized_list_array_format_suffix:
  assumes "format p = ''+w:'' @ suffix" and "make_flat_array p = Inr flat"
  shows "(leading_digits suffix = [] \<longrightarrow> fixed_sized_list_array p = Inl invalid_argument)
       \<and> (leading_digits suffix \<noteq> [] \<and> 2 ^ 64 \<le> decimal 0 (leading_digits suffix) \<longrightarrow>
            fixed_sized_list_array p = Inl out_of_range)
       \<and> (leading_digits suffix \<noteq> [] \<and> decimal 0 (leading_digits suffix) < 2 ^ 64 \<longrightarrow>
            (\<exists>n. fixed_sized_list_array p = Inr (Fixed_sized_list_array p flat n)
               \<and> (\<not> negative (dropWhile isspace suffix) \<longrightarrow>
                    unat n = decimal 0 (leading_digits suffix))))
       \<and> (decimal_literal suffix \<and> decimal 0 suffix < 2 ^ 64 \<longrightarrow>
            fixed_sized_list_array p = Inr (Fixed_sized_list_array p flat (of_nat (decimal 0 suffix))))
       \<and> (suffix = [] \<longrightarrow> fixed_sized_list_array p = Inl invalid_argument)"
proof -
  have f: "fixed_sized_list_array p =
      (case stoull suffix of Inl e \<Rightarrow> Inl e | Inr n \<Rightarrow> Inr (Fixed_sized_list_array p flat n))"
    using assms by (simp add: fixed_sized_list_array_def list_size_from_format_suffix)
  have 1: "fixed_sized_list_array p = Inl invalid_argument" if "leading_digits suffix = []"
    using that by (simp add: f stoull_def Let_def)
  have 2: "fixed_sized_list_array p = Inl out_of_range"
    if "leading_digits suffix \<noteq> []" "2 ^ 64 \<le> decimal 0 (leading_digits suffix)"
    using that by (simp add: f stoull_def Let_def)
  have 3: "\<exists>n. fixed_sized_list_array p = Inr (Fixed_sized_list_array p flat n)
               \<and> (\<not> negative (dropWhile isspace suffix) \<longrightarrow>
                    unat n = decimal 0 (leading_digits suffix))"
    if "leading_digits suffix \<noteq> []" "decimal 0 (leading_digits suffix) < 2 ^ 64"
    using that
    by (cases "negative (dropWhile isspace suffix)")
       (simp_all add: f stoull_def Let_def unat_of_nat)
  have 4: "fixed_sized_list_array p = Inr (Fixed_sized_list_array p flat (of_nat (decimal 0 suffix)))"
    if d: "decimal_literal suffix" and b: "decimal 0 suffix < 2 ^ 64"
  proof -
    from d obtain c cs where s: "suffix = c # cs" "isdigit c"
      by (cases suffix) (auto simp: decimal_literal_def)
    then have "\<not> isspace c" "c \<noteq> CHR ''-''" by (auto simp: isdigit_def isspace_def)
    with s have "\<not> negative (dropWhile isspace suffix)" by (simp add: negative_def)
    with d b leading_digits_literal [OF d] show ?thesis
      by (simp add: f stoull_def Let_def decimal_literal_def)
  qed
  have 5: "fixed_sized_list_array p = Inl invalid_argument" if "suffix = []"
    using that 1 by (simp add: leading_digits_def strip_sign_def)
  from 1 2 3 4 5 show ?thesis by blast
qed

text \<open>
  The suffixes \<open>""\<close>, \<open>"x3"\<close>, \<open>"3"\<close> and \<open>"18446744073709551616"\<close>.
\<close>

theorem fixed_sized_list_array_format_suffix_witness:
  "fixed_sized_list_array (Arrow_proxy ''+w:'' 2 0 [0] [Arrow_proxy ''i'' 6 0 [1, 2] []])
      = Inl invalid_argument
 \<and> fixed_sized_list_array (Arrow_proxy ''+w:x3'' 2 0 [0] [Arrow_proxy ''i'' 6 0 [1, 2] []])
      = Inl invalid_argument
 \<and> fixed_sized_list_array (Arrow_proxy ''+w:3'' 2 0 [0] [Arrow_proxy ''i'' 6 0 [1, 2] []])
      = Inr (Fixed_sized_list_array (Arrow_proxy ''+w:3'' 2 0 [0] [Arrow_proxy ''i'' 6 0 [1, 2] []])
          (Primitive_array INT32 (Arrow_proxy ''i'' 6 0 [1, 2] [])) 3)
 \<and> fixed_sized_list_array
      (Arrow_proxy ''+w:18446744073709551616'' 2 0 [0] [Arrow_proxy ''i'' 6 0 [1, 2] []])
      = Inl out_of_range"
proof -
  let ?c = "Arrow_proxy ''i'' 6 0 [1, 2] []"
  have m: "make_flat_array (Arrow_proxy fmt 2 0 [0] [?c]) = Inr (Primitive_array INT32 ?c)" for fmt
    by (simp add: make_flat_array_def)
  have d: "\<not> isdigit CHR ''x''" "\<not> isspace CHR ''x''" "\<not> isspace CHR ''3''"
    "\<not> isspace CHR ''1''" "isdigit CHR ''0''" "isdigit CHR ''1''" "isdigit CHR ''2''"
    "isdigit CHR ''3''" "isdigit CHR ''4''" "isdigit CHR ''5''" "isdigit CHR ''6''"
    "isdigit CHR ''7''" "isdigit CHR ''8''" "isdigit CHR ''9''"
    by (simp_all add: isdigit_def isspace_def)
  have 1: "fixed_sized_list_array (Arrow_proxy ''+w:'' 2 0 [0] [?c]) = Inl invalid_argument"
    using fixed_sized_list_array_format_suffix [OF _ m, of "''+w:''" "[]"] by simp
  have 2: "fixed_sized_list_array (Arrow_proxy ''+w:x3'' 2 0 [0] [?c]) = Inl invalid_argument"
    using fixed_sized_list_array_format_suffix [OF _ m, of "''+w:x3''" "''x3''"] d
    by (simp add: leading_digits_def strip_sign_def)
  have 3: "fixed_sized_list_array (Arrow_proxy ''+w:3'' 2 0 [0] [?c])
      = Inr (Fixed_sized_list_array (Arrow_proxy ''+w:3'' 2 0 [0] [?c]) (Primitive_array INT32 ?c) 3)"
    using fixed_sized_list_array_format_suffix [OF _ m, of "''+w:3''" "''3''"] d
    by (simp add: decimal_literal_def)
  have 4: "fixed_sized_list_array (Arrow_proxy ''+w:18446744073709551616'' 2 0 [0] [?c])
      = Inl out_of_range"
    using fixed_sized_list_array_format_suffix [OF _ m, of "''+w:18446744073709551616''"
        "''18446744073709551616''"] d
    by (simp add: leading_digits_def strip_sign_def)
  from 1 2 3 4 show ?thesis by simp
qed

text \<open>
  Claim C5 as stated fails: neither \<open>"3x"\<close> nor \<open>"-1"\<close> is a valid non-negative integer,
  and the construction succeeds on both, with the list sizes 3 and \<open>2^64 - 1\<close>.
\<close>

theorem fixed_sized_list_array_trailing_characters_counterexample:
  "\<not> decimal_literal ''3x''
 \<and> fixed_sized_list_array (Arrow_proxy ''+w:3x'' 2 0 [0] [Arrow_proxy ''i'' 6 0 [1, 2] []])
      = Inr (Fixed_sized_list_array (Arrow_proxy ''+w:3x'' 2 0 [0] [Arrow_proxy ''i'' 6 0 [1, 2] []])
          (Primitive_array INT32 (Arrow_proxy ''i'' 6 0 [1, 2] [])) 3)
 \<and> \<not> decimal_literal ''-1''
 \<and> fixed_sized_list_array (Arrow_proxy ''+w:-1'' 2 0 [0] [Arrow_proxy ''i'' 6 0 [1, 2] []])
      = Inr (Fixed_sized_list_array (Arrow_proxy ''+w:-1'' 2 0 [0] [Arrow_proxy ''i'' 6 0 [1, 2] []])
          (Primitive_array INT32 (Arrow_proxy ''i'' 6 0 [1, 2] [])) 18446744073709551615)"
  by (simp add: decimal_literal_def isdigit_def isspace_def fixed_sized_list_array_def
      make_flat_array_def list_size_from_format_def stoull_def leading_digits_def
      strip_sign_def negative_def)

section \<open>Properties of the list layouts\<close>

lemma list_array_impl_cases:
  assumes "list_array_impl big p = Inr l"
  obtains flat where "make_flat_array p = Inr flat"
    and "OFFSET_BUFFER_INDEX < length (buffers p)"
    and "l = List_array_impl big p flat (buffers p ! OFFSET_BUFFER_INDEX, proxy_offset p)"
  using assms
  by (auto simp: list_array_impl_def list_array_impl_from_def make_list_offsets_def
      split: sum.splits if_splits)

lemma load_unsigned_Inr:
  "pos + w \<le> length bytes \<Longrightarrow> load_unsigned bytes pos w = Inr (le_value (take w (drop pos bytes)))"
  by (simp add: load_unsigned_def)

text \<open>
  What \<open>value(i)\<close> of a \<open>list_array\<close> or \<open>big_list_array\<close> reads: \<open>p_list_offsets\<close> is the
  start of buffer 1 advanced by \<open>offset()\<close> bytes, so the two offsets are read at the byte
  positions \<open>offset() + i * w\<close> and \<open>offset() + (i + 1) * w\<close>, where \<open>w\<close> is the width of an
  offset.
\<close>

lemma value_list_reads_bytes:
  fixes big p h i
  defines "w \<equiv> offset_width big"
  defines "bytes \<equiv> mem h (buffers p ! OFFSET_BUFFER_INDEX)"
  assumes "list_array_impl big p = Inr l" and "i < list_layout_size l"
    and "proxy_offset p + (proxy_length p + 1) * w \<le> length bytes"
  shows "make_flat_array p = Inr (raw_flat_array l)
       \<and> value_list h l i =
           Inr (List_value (raw_flat_array l)
                  (le_value (take w (drop (proxy_offset p + i * w) bytes)))
                  (le_value (take w (drop (proxy_offset p + (i + 1) * w) bytes))))"
proof -
  from assms(3) obtain flat where flat: "make_flat_array p = Inr flat"
    and l: "l = List_array_impl big p flat (buffers p ! OFFSET_BUFFER_INDEX, proxy_offset p)"
    by (rule list_array_impl_cases)
  from assms(4) l have i: "i < proxy_length p" by (simp add: list_layout_size_def)
  then have "(i + 1) * w \<le> proxy_length p * w" "(i + 2) * w \<le> (proxy_length p + 1) * w"
    by (simp_all only: mult_le_mono1 Suc_leI add_Suc_right add_0_right One_nat_def
        Suc_le_mono numeral_2_eq_2)
  with assms(5) have b: "proxy_offset p + i * w + w \<le> length bytes"
    "proxy_offset p + (i + 1) * w + w \<le> length bytes"
    by (simp_all add: algebra_simps)
  have first: "ptr_index h (buffers p ! OFFSET_BUFFER_INDEX, proxy_offset p) w i
      = Inr (le_value (take w (drop (proxy_offset p + i * w) bytes)))"
    using load_unsigned_Inr [OF b(1)] by (simp add: ptr_index_def bytes_def)
  have second: "ptr_index h (buffers p ! OFFSET_BUFFER_INDEX, proxy_offset p) w (i + 1)
      = Inr (le_value (take w (drop (proxy_offset p + (i + 1) * w) bytes)))"
    using load_unsigned_Inr [OF b(2)] by (simp add: ptr_index_def bytes_def)
  from first second flat show ?thesis
    unfolding l by (simp add: value_list_def w_def [symmetric])
qed

text \<open>
  For a proxy with offset 0 these are the elements \<open>i\<close> and \<open>i + 1\<close> of the offsets buffer:
  \<open>value(i)\<close> is the range \<open>[offsets[i], offsets[i+1])\<close> of the flat child layout.
\<close>

lemma value_list_offset_zero:
  assumes "list_array_impl big p = Inr l" and "i < list_layout_size l"
    and "proxy_offset p = 0"
    and "(proxy_length p + 1) * offset_width big
          \<le> length (mem h (buffers p ! OFFSET_BUFFER_INDEX))"
  shows "value_list h l i =
           Inr (List_value (raw_flat_array l)
                  (offsets_element (offset_width big) (mem h (buffers p ! OFFSET_BUFFER_INDEX)) i)
                  (offsets_element (offset_width big) (mem h (buffers p ! OFFSET_BUFFER_INDEX))
                     (i + 1)))"
  using value_list_reads_bytes [OF assms(1) assms(2), of h] assms(3) assms(4)
  by (simp add: offsets_element_def)

text \<open>
  Claim C4. For every \<open>list_array\<close> and \<open>big_list_array\<close> and every \<open>i < size()\<close>, \<open>value(i)\<close>
  is to be the \<open>list_value\<close> over the flat child layout with the range
  \<open>[offsets[i], offsets[i+1])\<close> read from the offsets buffer. The code departs from this
  for a proxy whose offset is not 0, since \<open>make_list_offsets\<close> adds \<open>offset()\<close> to the
  pointer to the bytes of the buffer, before the cast to a pointer to offsets:
  \<^item> the \<open>list_array\<close> of one element at offset 4 over the 32-bit offsets
    \<open>0, 2, 2, 3, 7, 9\<close> is constructed, and its \<open>value(0)\<close> is the range \<open>[2, 2)\<close>, the
    elements 1 and 2 of the buffer, where \<open>offsets[0], offsets[1]\<close> are \<open>0, 2\<close> and the
    offsets of element 4 of the buffer are \<open>7, 9\<close>;
  \<^item> the \<open>big_list_array\<close> of one element at offset 2 over the 64-bit offsets \<open>0, 2, 2, 3\<close>
    is constructed, and its \<open>value(0)\<close> has both ends equal to \<open>562949953421312\<close>, read
    across the boundaries of the offsets, where \<open>offsets[0], offsets[1]\<close> are \<open>0, 2\<close> and
    the offsets of element 2 of the buffer are \<open>2, 3\<close>.
\<close>

theorem list_array_value_nonzero_offset:
  "list_array_impl False ex_list_sliced
     = Inr (List_array_impl False ex_list_sliced (Primitive_array INT32 ex_child) (1, 4))
 \<and> list_layout_size
       (List_array_impl False ex_list_sliced (Primitive_array INT32 ex_child) (1, 4)) = 1
 \<and> value_list ex_heap_sliced
       (List_array_impl False ex_list_sliced (Primitive_array INT32 ex_child) (1, 4)) 0
     = Inr (List_value (Primitive_array INT32 ex_child) 2 2)
 \<and> map (offsets_element (offset_width False)
          (mem ex_heap_sliced (buffers ex_list_sliced ! OFFSET_BUFFER_INDEX)))
       [0, 1, 2, 3, 4, 5] = [0, 2, 2, 3, 7, 9]
 \<and> list_array_impl True ex_big_list_sliced
     = Inr (List_array_impl True ex_big_list_sliced (Primitive_array INT32 ex_child) (4, 2))
 \<and> list_layout_size
       (List_array_impl True ex_big_list_sliced (Primitive_array INT32 ex_child) (4, 2)) = 1
 \<and> value_list ex_heap_sliced
       (List_array_impl True ex_big_list_sliced (Primitive_array INT32 ex_child) (4, 2)) 0
     = Inr (List_value (Primitive_array INT32 ex_child) 562949953421312 562949953421312)
 \<and> map (offsets_element (offset_width True)
          (mem ex_heap_sliced (buffers ex_big_list_sliced ! OFFSET_BUFFER_INDEX)))
       [0, 1, 2, 3] = [0, 2, 2, 3]"
proof -
  have c32: "list_array_impl False ex_list_sliced
      = Inr (List_array_impl False ex_list_sliced (Primitive_array INT32 ex_child) (1, 4))"
    by (simp add: list_array_impl_def list_array_impl_from_def make_flat_array_def
        make_list_offsets_def OFFSET_BUFFER_INDEX_def ex_list_sliced_def ex_child_def)
  have s32: "list_layout_size
      (List_array_impl False ex_list_sliced (Primitive_array INT32 ex_child) (1, 4)) = 1"
    by (simp add: list_layout_size_def ex_list_sliced_def)
  have v32: "value_list ex_heap_sliced
      (List_array_impl False ex_list_sliced (Primitive_array INT32 ex_child) (1, 4)) 0
      = Inr (List_value (Primitive_array INT32 ex_child) 2 2)"
    by (simp add: value_list_def ptr_index_def load_unsigned_def offset_width_def
        ex_heap_sliced_def)
  have o32: "map (offsets_element (offset_width False)
        (mem ex_heap_sliced (buffers ex_list_sliced ! OFFSET_BUFFER_INDEX)))
      [0, 1, 2, 3, 4, 5] = [0, 2, 2, 3, 7, 9]"
    by (simp add: offsets_element_def offset_width_def OFFSET_BUFFER_INDEX_def
        ex_list_sliced_def ex_heap_sliced_def)
  have c64: "list_array_impl True ex_big_list_sliced
      = Inr (List_array_impl True ex_big_list_sliced (Primitive_array INT32 ex_child) (4, 2))"
    by (simp add: list_array_impl_def list_array_impl_from_def make_flat_array_def
        make_list_offsets_def OFFSET_BUFFER_INDEX_def ex_big_list_sliced_def ex_child_def)
  have s64: "list_layout_size
      (List_array_impl True ex_big_list_sliced (Primitive_array INT32 ex_child) (4, 2)) = 1"
    by (simp add: list_layout_size_def ex_big_list_sliced_def)
  have v64: "value_list ex_heap_sliced
      (List_array_impl True ex_big_list_sliced (Primitive_array INT32 ex_child) (4, 2)) 0
      = Inr (List_value (Primitive_array INT32 ex_child) 562949953421312 562949953421312)"
    by (simp add: value_list_def ptr_index_def load_unsigned_def offset_width_def
        ex_heap_sliced_def)
  have o64: "map (offsets_element (offset_width True)
        (mem ex_heap_sliced (buffers ex_big_list_sliced ! OFFSET_BUFFER_INDEX)))
      [0, 1, 2, 3] = [0, 2, 2, 3]"
    by (simp add: offsets_element_def offset_width_def OFFSET_BUFFER_INDEX_def
        ex_big_list_sliced_def ex_heap_sliced_def)
  from c32 s32 v32 o32 c64 s64 v64 o64 show ?thesis by (intro conjI)
qed

section \<open>Copying a list layout: no shared buffers\<close>

lemma alloc_props:
  assumes "alloc h bytes = (a, h')"
  shows "a = brk h" "brk h' = Suc (brk h)" "mem h' (brk h) = bytes"
    "y \<noteq> brk h \<Longrightarrow> mem h' y = mem h y"
  using assms by (auto simp: alloc_def)

lemma copy_buffers_props:
  assumes "copy_buffers h as = (as', h')"
  shows "brk h \<le> brk h'"
    and "\<forall>y < brk h. mem h' y = mem h y"
    and "\<forall>x \<in> set as'. brk h \<le> x \<and> x < brk h'"
    and "length as' = length as"
    and "\<forall>k < length as. as ! k < brk h \<longrightarrow> mem h' (as' ! k) = mem h (as ! k)"
  using assms
proof (induction as arbitrary: h as' h')
  case Nil
  { case 1 then show ?case by simp }
  { case 2 then show ?case by simp }
  { case 3 then show ?case by auto }
  { case 4 then show ?case by auto }
  { case 5 then show ?case by simp }
next
  case (Cons a as)
  {
    fix h as' h' assume c: "copy_buffers h (a # as) = (as', h')"
    obtain a1 h1 where al: "alloc h (mem h a) = (a1, h1)" by (cases "alloc h (mem h a)")
    obtain as2 h2 where cb: "copy_buffers h1 as = (as2, h2)" by (cases "copy_buffers h1 as")
    from c al cb have r: "as' = a1 # as2" "h' = h2" by simp_all
    note a = alloc_props [OF al]
    note ih = Cons.IH [OF cb]
    have 1: "brk h \<le> brk h'" using a(2) ih(1) r by simp
    have 2: "\<forall>y < brk h. mem h' y = mem h y" using a(2,4) ih(2) r by simp
    have 3: "\<forall>x \<in> set as'. brk h \<le> x \<and> x < brk h'"
      using a(1,2) ih(1,3) r by fastforce
    have 4: "length as' = length (a # as)" using ih(4) r by simp
    have 5: "\<forall>k < length (a # as). (a # as) ! k < brk h \<longrightarrow> mem h' (as' ! k) = mem h ((a # as) ! k)"
    proof (intro allI impI)
      fix k assume k: "k < length (a # as)" and b: "(a # as) ! k < brk h"
      show "mem h' (as' ! k) = mem h ((a # as) ! k)"
      proof (cases k)
        case 0
        have "mem h2 (brk h) = mem h1 (brk h)" using ih(2) a(2) by simp
        with 0 r a(1,3) show ?thesis by simp
      next
        case (Suc j)
        with k b have j: "j < length as" "as ! j < brk h" by simp_all
        then have "as ! j < brk h1" "as ! j \<noteq> brk h" using a(2) by simp_all
        with ih(5) j a(4) have "mem h2 (as2 ! j) = mem h (as ! j)" by simp
        with Suc r show ?thesis by simp
      qed
    qed
    note 1 2 3 4 5
  }
  note step = this
  { case 1 then show ?case by (rule step(1)) }
  { case 2 then show ?case by (rule step(2)) }
  { case 3 then show ?case by (rule step(3)) }
  { case 4 then show ?case by (rule step(4)) }
  { case 5 then show ?case by (rule step(5)) }
qed


lemma map_mem_cong:
  "(\<forall>x \<in> set xs. f x = g x) \<Longrightarrow> map f xs = map g xs"
  by simp

lemma copy_buffers_contents:
  assumes "copy_buffers h as = (as', h')" and "\<forall>x \<in> set as. x < brk h"
  shows "map (mem h') as' = map (mem h) as"
proof (rule nth_equalityI)
  show "length (map (mem h') as') = length (map (mem h) as)"
    using copy_buffers_props(4) [OF assms(1)] by simp
next
  fix k assume "k < length (map (mem h') as')"
  then have k: "k < length as" "k < length as'"
    using copy_buffers_props(4) [OF assms(1)] by simp_all
  with assms(2) have "as ! k < brk h" by simp
  with copy_buffers_props(5) [OF assms(1)] k
  show "map (mem h') as' ! k = map (mem h) as ! k" by simp
qed


lemma copy_proxy_props_aux:
  "\<forall>p' h'. copy_proxy h p = (p', h') \<longrightarrow>
     brk h \<le> brk h' \<and> (\<forall>y < brk h. mem h' y = mem h y)
     \<and> (\<forall>x \<in> set (proxy_addrs p'). brk h \<le> x \<and> x < brk h')
     \<and> proxy_shape p' = proxy_shape p
     \<and> ((\<forall>x \<in> set (proxy_addrs p). x < brk h) \<longrightarrow>
          map (mem h') (proxy_addrs p') = map (mem h) (proxy_addrs p))"
  "\<forall>ps' h'. copy_proxies h ps = (ps', h') \<longrightarrow>
     brk h \<le> brk h' \<and> (\<forall>y < brk h. mem h' y = mem h y)
     \<and> (\<forall>x \<in> set (concat (map proxy_addrs ps')). brk h \<le> x \<and> x < brk h')
     \<and> map proxy_shape ps' = map proxy_shape ps
     \<and> ((\<forall>x \<in> set (concat (map proxy_addrs ps)). x < brk h) \<longrightarrow>
          map (mem h') (concat (map proxy_addrs ps')) = map (mem h) (concat (map proxy_addrs ps)))"
proof (induction h p and h ps rule: copy_proxy_copy_proxies.induct)
  case (1 h fmt len off bufs chs)
  show ?case
  proof (intro allI impI)
    fix p' h' assume c: "copy_proxy h (Arrow_proxy fmt len off bufs chs) = (p', h')"
    obtain bufs' h1 where cb: "copy_buffers h bufs = (bufs', h1)"
      by (cases "copy_buffers h bufs")
    obtain chs' h2 where cc: "copy_proxies h1 chs = (chs', h2)"
      by (cases "copy_proxies h1 chs")
    from c cb cc have r: "p' = Arrow_proxy fmt len off bufs' chs'" "h' = h2" by simp_all
    note b = copy_buffers_props [OF cb]
    from 1 [OF cb [symmetric] refl] cc
    have ih: "brk h1 \<le> brk h2" "\<forall>y < brk h1. mem h2 y = mem h1 y"
      "\<forall>x \<in> set (concat (map proxy_addrs chs')). brk h1 \<le> x \<and> x < brk h2"
      "map proxy_shape chs' = map proxy_shape chs"
      "(\<forall>x \<in> set (concat (map proxy_addrs chs)). x < brk h1) \<longrightarrow>
          map (mem h2) (concat (map proxy_addrs chs')) = map (mem h1) (concat (map proxy_addrs chs))"
      by blast+
    have 1: "brk h \<le> brk h'" using b(1) ih(1) r by simp
    have 2: "\<forall>y < brk h. mem h' y = mem h y" using b(1,2) ih(2) r by simp
    have 3: "\<forall>x \<in> set (proxy_addrs p'). brk h \<le> x \<and> x < brk h'"
      using b(1,3) ih(1,3) r by fastforce
    have "map (\<lambda>a. 0 :: nat) bufs' = map (\<lambda>a. 0) bufs"
      using b(4) by (simp add: map_replicate_const)
    then have 4: "proxy_shape p' = proxy_shape (Arrow_proxy fmt len off bufs chs)"
      using ih(4) r by simp
    have 5: "map (mem h') (proxy_addrs p') = map (mem h) (proxy_addrs (Arrow_proxy fmt len off bufs chs))"
      if al: "\<forall>x \<in> set (proxy_addrs (Arrow_proxy fmt len off bufs chs)). x < brk h"
    proof -
      from al have ab: "\<forall>x \<in> set bufs. x < brk h"
        and ac: "\<forall>x \<in> set (concat (map proxy_addrs chs)). x < brk h" by auto
      have "map (mem h2) bufs' = map (mem h1) bufs'"
        using b(3) ih(2) by (intro map_mem_cong) simp
      also have "\<dots> = map (mem h) bufs" by (rule copy_buffers_contents [OF cb ab])
      finally have x: "map (mem h2) bufs' = map (mem h) bufs" .
      from ac b(1) have "\<forall>x \<in> set (concat (map proxy_addrs chs)). x < brk h1" by fastforce
      with ih(5) have "map (mem h2) (concat (map proxy_addrs chs'))
          = map (mem h1) (concat (map proxy_addrs chs))" by blast
      also have "\<dots> = map (mem h) (concat (map proxy_addrs chs))"
        using ac b(2) by (intro map_mem_cong) simp
      finally show ?thesis using x r by simp
    qed
    from 1 2 3 4 5 show "brk h \<le> brk h' \<and> (\<forall>y < brk h. mem h' y = mem h y)
     \<and> (\<forall>x \<in> set (proxy_addrs p'). brk h \<le> x \<and> x < brk h')
     \<and> proxy_shape p' = proxy_shape (Arrow_proxy fmt len off bufs chs)
     \<and> ((\<forall>x \<in> set (proxy_addrs (Arrow_proxy fmt len off bufs chs)). x < brk h) \<longrightarrow>
          map (mem h') (proxy_addrs p') = map (mem h) (proxy_addrs (Arrow_proxy fmt len off bufs chs)))"
      by blast
  qed
next
  case (2 h)
  show ?case by simp
next
  case (3 h c cs)
  show ?case
  proof (intro allI impI)
    fix ps' h' assume cp: "copy_proxies h (c # cs) = (ps', h')"
    obtain c' h1 where c1: "copy_proxy h c = (c', h1)" by (cases "copy_proxy h c")
    obtain cs' h2 where c2: "copy_proxies h1 cs = (cs', h2)" by (cases "copy_proxies h1 cs")
    from cp c1 c2 have r: "ps' = c' # cs'" "h' = h2" by simp_all
    from 3(1) c1
    have a: "brk h \<le> brk h1" "\<forall>y < brk h. mem h1 y = mem h y"
      "\<forall>x \<in> set (proxy_addrs c'). brk h \<le> x \<and> x < brk h1"
      "proxy_shape c' = proxy_shape c"
      "(\<forall>x \<in> set (proxy_addrs c). x < brk h) \<longrightarrow>
          map (mem h1) (proxy_addrs c') = map (mem h) (proxy_addrs c)"
      by blast+
    from 3(2) [OF c1 [symmetric] refl] c2
    have ih: "brk h1 \<le> brk h2" "\<forall>y < brk h1. mem h2 y = mem h1 y"
      "\<forall>x \<in> set (concat (map proxy_addrs cs')). brk h1 \<le> x \<and> x < brk h2"
      "map proxy_shape cs' = map proxy_shape cs"
      "(\<forall>x \<in> set (concat (map proxy_addrs cs)). x < brk h1) \<longrightarrow>
          map (mem h2) (concat (map proxy_addrs cs')) = map (mem h1) (concat (map proxy_addrs cs))"
      by blast+
    have 1: "brk h \<le> brk h'" using a(1) ih(1) r by simp
    have 2: "\<forall>y < brk h. mem h' y = mem h y" using a(1,2) ih(2) r by simp
    have 3: "\<forall>x \<in> set (concat (map proxy_addrs ps')). brk h \<le> x \<and> x < brk h'"
      using a(1,3) ih(1,3) r by fastforce
    have 4: "map proxy_shape ps' = map proxy_shape (c # cs)" using a(4) ih(4) r by simp
    have 5: "map (mem h') (concat (map proxy_addrs ps')) = map (mem h) (concat (map proxy_addrs (c # cs)))"
      if al: "\<forall>x \<in> set (concat (map proxy_addrs (c # cs))). x < brk h"
    proof -
      from al have ab: "\<forall>x \<in> set (proxy_addrs c). x < brk h"
        and ac: "\<forall>x \<in> set (concat (map proxy_addrs cs)). x < brk h" by auto
      have "map (mem h2) (proxy_addrs c') = map (mem h1) (proxy_addrs c')"
        using a(3) ih(2) by (intro map_mem_cong) simp
      also have "\<dots> = map (mem h) (proxy_addrs c)" using a(5) ab by blast
      finally have x: "map (mem h2) (proxy_addrs c') = map (mem h) (proxy_addrs c)" .
      from ac a(1) have "\<forall>x \<in> set (concat (map proxy_addrs cs)). x < brk h1" by fastforce
      with ih(5) have "map (mem h2) (concat (map proxy_addrs cs'))
          = map (mem h1) (concat (map proxy_addrs cs))" by blast
      also have "\<dots> = map (mem h) (concat (map proxy_addrs cs))"
        using ac a(2) by (intro map_mem_cong) simp
      finally show ?thesis using x r by simp
    qed
    from 1 2 3 4 5 show "brk h \<le> brk h' \<and> (\<forall>y < brk h. mem h' y = mem h y)
     \<and> (\<forall>x \<in> set (concat (map proxy_addrs ps')). brk h \<le> x \<and> x < brk h')
     \<and> map proxy_shape ps' = map proxy_shape (c # cs)
     \<and> ((\<forall>x \<in> set (concat (map proxy_addrs (c # cs))). x < brk h) \<longrightarrow>
          map (mem h') (concat (map proxy_addrs ps')) = map (mem h) (concat (map proxy_addrs (c # cs))))"
      by blast
  qed
qed


lemma copy_proxy_props:
  assumes "copy_proxy h p = (p', h')"
  shows "brk h \<le> brk h'"
    and "\<forall>y < brk h. mem h' y = mem h y"
    and "\<forall>x \<in> set (proxy_addrs p'). brk h \<le> x \<and> x < brk h'"
    and "proxy_shape p' = proxy_shape p"
    and "(\<forall>x \<in> set (proxy_addrs p). x < brk h) \<Longrightarrow>
          map (mem h') (proxy_addrs p') = map (mem h) (proxy_addrs p)"
  using copy_proxy_props_aux(1) [of h p] assms by blast+

lemma shape_fields:
  assumes "proxy_shape p' = proxy_shape p"
  shows "format p' = format p" "proxy_length p' = proxy_length p"
    "proxy_offset p' = proxy_offset p" "length (buffers p') = length (buffers p)"
    "map proxy_shape (children p') = map proxy_shape (children p)"
proof -
  obtain f l o' b c where p: "p = Arrow_proxy f l o' b c" by (cases p)
  obtain f' l' o'' b' c' where p': "p' = Arrow_proxy f' l' o'' b' c'" by (cases p')
  from assms p p' have e: "f' = f" "l' = l" "o'' = o'" "map (\<lambda>a. 0 :: nat) b' = map (\<lambda>a. 0) b"
    "map proxy_shape c' = map proxy_shape c" by simp_all
  from e(4) have "length b' = length b" by (rule map_eq_imp_length_eq)
  with e p p' show "format p' = format p" "proxy_length p' = proxy_length p"
    "proxy_offset p' = proxy_offset p" "length (buffers p') = length (buffers p)"
    "map proxy_shape (children p') = map proxy_shape (children p)" by simp_all
qed

lemma array_factory_shape:
  "proxy_shape p' = proxy_shape p \<Longrightarrow> array_factory p = Inr l \<Longrightarrow> \<exists>l'. array_factory p' = Inr l'"
proof (induction p arbitrary: p' l)
  case (Arrow_proxy fmt len off bufs chs)
  let ?p = "Arrow_proxy fmt len off bufs chs"
  note sf = shape_fields [OF Arrow_proxy.prems(1)]
  obtain bufs' chs' where p': "p' = Arrow_proxy fmt len off bufs' chs'"
    using sf(1,2,3) by (cases p') simp
  from sf(4,5) p' have lb: "length bufs' = length bufs"
    and sc: "map proxy_shape chs' = map proxy_shape chs" by simp_all
  show ?case
  proof (cases "length fmt = 1")
    case True
    with Arrow_proxy.prems(2) show ?thesis
      unfolding p' by (simp add: Let_def split: if_splits)
  next
    case False
    from False Arrow_proxy.prems(2) have l: "fmt = ''+l'' \<or> fmt = ''+L''"
      by (auto simp: Let_def split: if_splits)
    let ?r = "case chs of [] \<Rightarrow> Inl out_of_bounds | c # _ \<Rightarrow> array_factory c"
    from l Arrow_proxy.prems(2) False
    have "\<exists>big x. list_array_impl_from big ?p ?r = Inr x"
      by (auto simp: Let_def map_sum_def split: if_splits sum.splits)
    then obtain big x where x: "list_array_impl_from big ?p ?r = Inr x" by blast
    then obtain flat where r: "?r = Inr flat"
      by (cases ?r) (simp_all add: list_array_impl_from_def)
    from x r have b: "OFFSET_BUFFER_INDEX < length bufs"
      by (simp add: list_array_impl_from_def make_list_offsets_def split: if_splits)
    from r obtain c cs where chs: "chs = c # cs" and f: "array_factory c = Inr flat"
      by (cases chs) simp_all
    from sc chs obtain c' cs' where chs': "chs' = c' # cs'" and "proxy_shape c' = proxy_shape c"
      by (cases chs') auto
    with Arrow_proxy.IH [of c c' flat] chs f obtain flat' where "array_factory c' = Inr flat'"
      by auto
    with l chs' b lb show ?thesis
      unfolding p'
      by (auto simp: Let_def list_array_impl_from_def make_list_offsets_def)
  qed
qed

lemma make_flat_array_shape:
  assumes "proxy_shape p' = proxy_shape p" and "make_flat_array p = Inr flat"
  shows "\<exists>flat'. make_flat_array p' = Inr flat'"
proof -
  from assms(2) obtain c cs where c: "children p = c # cs" "array_factory c = Inr flat"
    by (auto simp: make_flat_array_def split: list.splits)
  from shape_fields(5) [OF assms(1)] c(1)
  obtain c' cs' where c': "children p' = c' # cs'" "proxy_shape c' = proxy_shape c"
    by (cases "children p'") auto
  from array_factory_shape [OF c'(2) c(2)] c'(1) show ?thesis
    by (simp add: make_flat_array_def)
qed

lemma store_byte_other: "x \<noteq> y \<Longrightarrow> mem (store_byte h x pos v) y = mem h y"
  by (simp add: store_byte_def)

lemma constructed_cases:
  assumes "constructed a"
  obtains (list) big p flat where "a = List_array_impl big p flat (buffers p ! OFFSET_BUFFER_INDEX, proxy_offset p)"
      "make_flat_array p = Inr flat" "OFFSET_BUFFER_INDEX < length (buffers p)"
  | (view) big p flat where "a = List_view_array_impl big p flat
        (buffers p ! OFFSET_BUFFER_INDEX, proxy_offset p) (buffers p ! SIZES_BUFFER_INDEX, proxy_offset p)"
      "make_flat_array p = Inr flat" "OFFSET_BUFFER_INDEX < length (buffers p)"
      "SIZES_BUFFER_INDEX < length (buffers p)"
  | (fixed) p flat n where "a = Fixed_sized_list_array p flat n"
      "make_flat_array p = Inr flat" "list_size_from_format (format p) = Inr n"
proof -
  from assms consider
      big where "list_array_impl big (get_arrow_proxy a) = Inr a"
    | big where "list_view_array_impl big (get_arrow_proxy a) = Inr a"
    | "fixed_sized_list_array (get_arrow_proxy a) = Inr a"
    unfolding constructed_def by blast
  then show ?thesis
  proof cases
    case 1
    from list_array_impl_cases [OF 1] obtain flat
      where "make_flat_array (get_arrow_proxy a) = Inr flat"
        "OFFSET_BUFFER_INDEX < length (buffers (get_arrow_proxy a))"
        "a = List_array_impl big (get_arrow_proxy a) flat
           (buffers (get_arrow_proxy a) ! OFFSET_BUFFER_INDEX, proxy_offset (get_arrow_proxy a))"
      by blast
    then show ?thesis by (rule list [rotated 1])
  next
    case 2
    let ?p = "get_arrow_proxy a"
    from 2 obtain flat where f: "make_flat_array ?p = Inr flat"
      by (cases "make_flat_array ?p") (simp_all add: list_view_array_impl_def)
    from 2 f have o: "OFFSET_BUFFER_INDEX < length (buffers ?p)"
      by (simp add: list_view_array_impl_def make_list_offsets_def split: if_splits)
    from 2 f o have z: "SIZES_BUFFER_INDEX < length (buffers ?p)"
      by (simp add: list_view_array_impl_def make_list_offsets_def make_list_sizes_def
          split: if_splits)
    from 2 f o z have "a = List_view_array_impl big ?p flat
        (buffers ?p ! OFFSET_BUFFER_INDEX, proxy_offset ?p)
        (buffers ?p ! SIZES_BUFFER_INDEX, proxy_offset ?p)"
      by (simp add: list_view_array_impl_def make_list_offsets_def make_list_sizes_def)
    then show ?thesis using f o z by (rule view)
  next
    case 3
    let ?p = "get_arrow_proxy a"
    from 3 obtain flat where f: "make_flat_array ?p = Inr flat"
      by (cases "make_flat_array ?p") (simp_all add: fixed_sized_list_array_def)
    from 3 f obtain n where n: "list_size_from_format (format ?p) = Inr n"
      by (cases "list_size_from_format (format ?p)") (simp_all add: fixed_sized_list_array_def)
    from 3 f n have "a = Fixed_sized_list_array ?p flat n"
      by (simp add: fixed_sized_list_array_def)
    then show ?thesis using f n by (rule fixed)
  qed
qed


lemma proxy_addrs_nth:
  assumes "k < length (buffers p)"
  shows "proxy_addrs p ! k = buffers p ! k" and "k < length (proxy_addrs p)"
    and "buffers p ! k \<in> set (proxy_addrs p)"
  using assms by (cases p; simp add: nth_append)+

lemma root_contents:
  assumes "map (mem h') (proxy_addrs p') = map (mem h) (proxy_addrs p)"
    and "length (buffers p') = length (buffers p)" and "k < length (buffers p)"
  shows "mem h' (buffers p' ! k) = mem h (buffers p ! k)"
proof -
  from assms(2,3) have k': "k < length (buffers p')" by simp
  have "map (mem h') (proxy_addrs p') ! k = map (mem h) (proxy_addrs p) ! k"
    using assms(1) by simp
  then show ?thesis
    using proxy_addrs_nth(1,2) [OF assms(3)] proxy_addrs_nth(1,2) [OF k'] by simp
qed

lemma reads_own_buffers:
  assumes "constructed a"
    and "\<forall>y \<in> set (proxy_addrs (get_arrow_proxy a)). mem h2 y = mem h1 y"
  shows "offset_range h2 a i = offset_range h1 a i"
    and "value_list h2 a i = value_list h1 a i"
    and "has_value_list h2 a i = has_value_list h1 a i"
proof -
  show o: "offset_range h2 a i = offset_range h1 a i"
    using assms(1)
  proof (cases rule: constructed_cases)
    case (list big p flat)
    from list(1) assms(2) proxy_addrs_nth(3) [OF list(3)]
    have "mem h2 (buffers p ! OFFSET_BUFFER_INDEX) = mem h1 (buffers p ! OFFSET_BUFFER_INDEX)"
      by simp
    then show ?thesis unfolding list(1) by (simp add: ptr_index_def cong: sum.case_cong)
  next
    case (view big p flat)
    from view(1) assms(2) proxy_addrs_nth(3) [OF view(3)] proxy_addrs_nth(3) [OF view(4)]
    have "mem h2 (buffers p ! OFFSET_BUFFER_INDEX) = mem h1 (buffers p ! OFFSET_BUFFER_INDEX)"
      "mem h2 (buffers p ! SIZES_BUFFER_INDEX) = mem h1 (buffers p ! SIZES_BUFFER_INDEX)"
      by simp_all
    then show ?thesis unfolding view(1) by (simp add: ptr_index_def cong: sum.case_cong)
  next
    case (fixed p flat n)
    then show ?thesis by simp
  qed
  then show "value_list h2 a i = value_list h1 a i" by (simp add: value_list_def)
  show "has_value_list h2 a i = has_value_list h1 a i"
  proof (cases "buffers (get_arrow_proxy a) = []")
    case True
    then show ?thesis by (simp add: has_value_list_def Let_def)
  next
    case False
    then have "0 < length (buffers (get_arrow_proxy a))" by simp
    from proxy_addrs_nth(3) [OF this] assms(2)
    have "mem h2 (buffers (get_arrow_proxy a) ! 0) = mem h1 (buffers (get_arrow_proxy a) ! 0)"
      by simp
    then show ?thesis by (simp add: has_value_list_def Let_def)
  qed
qed

lemma copy_list_layout_result:
  assumes "constructed a" and "copy_proxy h (get_arrow_proxy a) = (pb, h')"
  shows "\<exists>b. copy_list_layout h a = Inr (b, h') \<and> get_arrow_proxy b = pb \<and> constructed b
      \<and> list_layout_size b = list_layout_size a
      \<and> (\<forall>big p flat offs. b = List_array_impl big p flat offs \<longrightarrow>
            offs = (buffers pb ! OFFSET_BUFFER_INDEX, proxy_offset pb)
          \<and> make_flat_array pb = Inr flat)
      \<and> ((\<forall>k < length (buffers (get_arrow_proxy a)).
              mem h' (buffers pb ! k) = mem h (buffers (get_arrow_proxy a) ! k)) \<longrightarrow>
           (\<forall>i. offset_range h' b i = offset_range h a i
               \<and> has_value_list h' b i = has_value_list h a i))"
proof -
  note sh = copy_proxy_props(4) [OF assms(2)]
  note sf = shape_fields [OF sh]
  from assms(1) show ?thesis
  proof (cases rule: constructed_cases)
    case (list big p flat)
    from list(1) have pa: "get_arrow_proxy a = p" by simp
    from make_flat_array_shape [OF sh] list(2) pa
    obtain flat' where f: "make_flat_array pb = Inr flat'" by auto
    from sf(4) list(3) pa have o: "OFFSET_BUFFER_INDEX < length (buffers pb)" by simp
    let ?b = "List_array_impl big pb flat' (buffers pb ! OFFSET_BUFFER_INDEX, proxy_offset pb)"
    have c: "copy_list_layout h a = Inr (?b, h')"
      using assms(2) pa f o unfolding list(1) by (simp add: make_list_offsets_def)
    have "list_array_impl big pb = Inr ?b"
      using f o by (simp add: list_array_impl_def list_array_impl_from_def make_list_offsets_def)
    then have k: "constructed ?b" by (cases big) (simp_all add: constructed_def)
    have s: "list_layout_size ?b = list_layout_size a"
      using sf(2) pa by (simp add: list_layout_size_def)
    have r: "offset_range h' ?b i = offset_range h a i
           \<and> has_value_list h' ?b i = has_value_list h a i"
      if m: "\<forall>k < length (buffers (get_arrow_proxy a)).
              mem h' (buffers pb ! k) = mem h (buffers (get_arrow_proxy a) ! k)" for i
    proof -
      from m list(3) pa
      have "mem h' (buffers pb ! OFFSET_BUFFER_INDEX) = mem h (buffers p ! OFFSET_BUFFER_INDEX)"
        by simp
      then have 1: "offset_range h' ?b i = offset_range h a i"
        unfolding list(1) using sf(3) pa by (simp add: ptr_index_def cong: sum.case_cong)
      from list(3) pa have "0 < length (buffers p)" by (auto simp: OFFSET_BUFFER_INDEX_def)
      with m pa have "mem h' (buffers pb ! 0) = mem h (buffers p ! 0)" by simp
      then have 2: "has_value_list h' ?b i = has_value_list h a i"
        using sf(2,3,4) pa s by (auto simp add: has_value_list_def Let_def)
      from 1 2 show ?thesis ..
    qed
    from c k s f r show ?thesis by auto
  next
    case (view big p flat)
    from view(1) have pa: "get_arrow_proxy a = p" by simp
    from make_flat_array_shape [OF sh] view(2) pa
    obtain flat' where f: "make_flat_array pb = Inr flat'" by auto
    from sf(4) view(3,4) pa have o: "OFFSET_BUFFER_INDEX < length (buffers pb)"
      "SIZES_BUFFER_INDEX < length (buffers pb)" by simp_all
    let ?b = "List_view_array_impl big pb flat' (buffers pb ! OFFSET_BUFFER_INDEX, proxy_offset pb)
        (buffers pb ! SIZES_BUFFER_INDEX, proxy_offset pb)"
    have c: "copy_list_layout h a = Inr (?b, h')"
      using assms(2) pa f o unfolding view(1)
      by (simp add: make_list_offsets_def make_list_sizes_def)
    have "list_view_array_impl big pb = Inr ?b"
      using f o by (simp add: list_view_array_impl_def make_list_offsets_def make_list_sizes_def)
    then have k: "constructed ?b" by (cases big) (simp_all add: constructed_def)
    have s: "list_layout_size ?b = list_layout_size a"
      using sf(2) pa by (simp add: list_layout_size_def)
    have r: "offset_range h' ?b i = offset_range h a i
           \<and> has_value_list h' ?b i = has_value_list h a i"
      if m: "\<forall>k < length (buffers (get_arrow_proxy a)).
              mem h' (buffers pb ! k) = mem h (buffers (get_arrow_proxy a) ! k)" for i
    proof -
      from m view(3,4) pa
      have "mem h' (buffers pb ! OFFSET_BUFFER_INDEX) = mem h (buffers p ! OFFSET_BUFFER_INDEX)"
        "mem h' (buffers pb ! SIZES_BUFFER_INDEX) = mem h (buffers p ! SIZES_BUFFER_INDEX)"
        by simp_all
      then have 1: "offset_range h' ?b i = offset_range h a i"
        unfolding view(1) using sf(3) pa by (simp add: ptr_index_def cong: sum.case_cong)
      from view(3) pa have "0 < length (buffers p)" by (auto simp: OFFSET_BUFFER_INDEX_def)
      with m pa have "mem h' (buffers pb ! 0) = mem h (buffers p ! 0)" by simp
      then have 2: "has_value_list h' ?b i = has_value_list h a i"
        using sf(2,3,4) pa s by (auto simp add: has_value_list_def Let_def)
      from 1 2 show ?thesis ..
    qed
    from c k s r show ?thesis by auto
  next
    case (fixed p flat n)
    from fixed(1) have pa: "get_arrow_proxy a = p" by simp
    from make_flat_array_shape [OF sh] fixed(2) pa
    obtain flat' where f: "make_flat_array pb = Inr flat'" by auto
    let ?b = "Fixed_sized_list_array pb flat' n"
    have c: "copy_list_layout h a = Inr (?b, h')"
      using assms(2) pa f unfolding fixed(1) by simp
    have "fixed_sized_list_array pb = Inr ?b"
      using f fixed(3) sf(1) pa by (simp add: fixed_sized_list_array_def)
    then have k: "constructed ?b" by (simp add: constructed_def)
    have s: "list_layout_size ?b = list_layout_size a"
      using sf(2) pa by (simp add: list_layout_size_def)
    have r: "offset_range h' ?b i = offset_range h a i
           \<and> has_value_list h' ?b i = has_value_list h a i"
      if m: "\<forall>k < length (buffers (get_arrow_proxy a)).
              mem h' (buffers pb ! k) = mem h (buffers (get_arrow_proxy a) ! k)" for i
    proof -
      have 1: "offset_range h' ?b i = offset_range h a i"
        unfolding fixed(1) by simp
      have 2: "has_value_list h' ?b i = has_value_list h a i"
      proof (cases "buffers p = []")
        case True
        with sf(4) pa have "buffers pb = []" by simp
        with True pa s show ?thesis by (simp add: has_value_list_def Let_def)
      next
        case False
        then have "0 < length (buffers p)" by simp
        with m pa have "mem h' (buffers pb ! 0) = mem h (buffers p ! 0)" by simp
        then show ?thesis
          using sf(2,3,4) pa s by (auto simp add: has_value_list_def Let_def)
      qed
      from 1 2 show ?thesis ..
    qed
    from c k s r show ?thesis by auto
  qed
qed


text \<open>
  Claim C7. Let \<open>a\<close> be a list layout (\<open>list_array\<close>, \<open>big_list_array\<close>, a list view or a
  fixed-size list) constructed from its proxy, with all its buffers allocated. Copying
  \<open>a\<close> succeeds with a layout \<open>b\<close> that is itself constructed from its own, newly copied
  proxy: no buffer of \<open>b\<close>, at any depth, is a buffer of \<open>a\<close>; for a list array the raw
  offsets pointer of \<open>b\<close> is derived again from buffer 1 of \<open>b\<close>'s proxy, and its child
  layout from the first child of that proxy. The copy shows the same ranges and
  validity bits as \<open>a\<close>, and writing any byte of any buffer of \<open>b\<close> (a validity bit or a
  value, at any depth) changes no byte of a buffer of \<open>a\<close>, hence no \<open>value(i)\<close> and no
  validity bit observed through \<open>a\<close>.
\<close>

theorem list_layout_copy_independent:
  assumes "constructed a" and "allocated h (get_arrow_proxy a)"
  shows "\<exists>b h'. copy_list_layout h a = Inr (b, h')
     \<and> constructed b
     \<and> set (proxy_addrs (get_arrow_proxy b)) \<inter> set (proxy_addrs (get_arrow_proxy a)) = {}
     \<and> (\<forall>big p flat offs. b = List_array_impl big p flat offs \<longrightarrow>
           offs = (buffers (get_arrow_proxy b) ! OFFSET_BUFFER_INDEX,
                   proxy_offset (get_arrow_proxy b))
         \<and> fst offs \<in> set (proxy_addrs (get_arrow_proxy b))
         \<and> fst offs \<notin> set (proxy_addrs (get_arrow_proxy a))
         \<and> make_flat_array (get_arrow_proxy b) = Inr flat)
     \<and> (\<forall>i. offset_range h' b i = offset_range h a i
            \<and> has_value_list h' b i = has_value_list h a i)
     \<and> (\<forall>x \<in> set (proxy_addrs (get_arrow_proxy b)). \<forall>pos v.
          (\<forall>y \<in> set (proxy_addrs (get_arrow_proxy a)). mem (store_byte h' x pos v) y = mem h y)
        \<and> (\<forall>i. value_list (store_byte h' x pos v) a i = value_list h a i
             \<and> has_value_list (store_byte h' x pos v) a i = has_value_list h a i))"
proof -
  let ?pa = "get_arrow_proxy a"
  obtain pb h' where cp: "copy_proxy h ?pa = (pb, h')" by (cases "copy_proxy h ?pa")
  note pr = copy_proxy_props [OF cp]
  from assms(2) have al: "\<forall>y \<in> set (proxy_addrs ?pa). y < brk h"
    by (simp add: allocated_def list_all_iff)
  from copy_list_layout_result [OF assms(1) cp]
  obtain b where b: "copy_list_layout h a = Inr (b, h')" "get_arrow_proxy b = pb"
    "constructed b"
    "\<forall>big p flat offs. b = List_array_impl big p flat offs \<longrightarrow>
            offs = (buffers pb ! OFFSET_BUFFER_INDEX, proxy_offset pb)
          \<and> make_flat_array pb = Inr flat"
    "(\<forall>k < length (buffers ?pa). mem h' (buffers pb ! k) = mem h (buffers ?pa ! k)) \<longrightarrow>
           (\<forall>i. offset_range h' b i = offset_range h a i
               \<and> has_value_list h' b i = has_value_list h a i)"
    by blast
  have disj: "set (proxy_addrs pb) \<inter> set (proxy_addrs ?pa) = {}"
    using pr(3) al by fastforce
  have root: "\<forall>k < length (buffers ?pa). mem h' (buffers pb ! k) = mem h (buffers ?pa ! k)"
    using root_contents [OF pr(5) [OF al] shape_fields(4) [OF pr(4)]] by blast
  with b(5) have same: "\<forall>i. offset_range h' b i = offset_range h a i
               \<and> has_value_list h' b i = has_value_list h a i" by blast
  have offs: "offs = (buffers pb ! OFFSET_BUFFER_INDEX, proxy_offset pb)
         \<and> fst offs \<in> set (proxy_addrs pb)
         \<and> fst offs \<notin> set (proxy_addrs ?pa)
         \<and> make_flat_array pb = Inr flat"
    if f: "b = List_array_impl big p flat offs" for big p flat offs
  proof -
    from b(4) f have o: "offs = (buffers pb ! OFFSET_BUFFER_INDEX, proxy_offset pb)"
      and m: "make_flat_array pb = Inr flat" by blast+
    from b(3) f b(2) have "OFFSET_BUFFER_INDEX < length (buffers pb)"
      by (cases rule: constructed_cases) auto
    from proxy_addrs_nth(3) [OF this] o have i: "fst offs \<in> set (proxy_addrs pb)" by simp
    with disj have "fst offs \<notin> set (proxy_addrs ?pa)" by blast
    with o m i show ?thesis by blast
  qed
  have frame: "(\<forall>y \<in> set (proxy_addrs ?pa). mem (store_byte h' x pos v) y = mem h y)
        \<and> (\<forall>i. value_list (store_byte h' x pos v) a i = value_list h a i
             \<and> has_value_list (store_byte h' x pos v) a i = has_value_list h a i)"
    if x: "x \<in> set (proxy_addrs pb)" for x pos v
  proof -
    have m: "\<forall>y \<in> set (proxy_addrs ?pa). mem (store_byte h' x pos v) y = mem h y"
    proof
      fix y assume y: "y \<in> set (proxy_addrs ?pa)"
      with x disj have "x \<noteq> y" by blast
      then have "mem (store_byte h' x pos v) y = mem h' y" by (rule store_byte_other)
      also have "\<dots> = mem h y" using pr(2) al y by simp
      finally show "mem (store_byte h' x pos v) y = mem h y" .
    qed
    from reads_own_buffers(2,3) [OF assms(1) m] m show ?thesis by blast
  qed
  from b(1,3) disj offs same frame show ?thesis
    unfolding b(2) [symmetric] by blast
qed

lemma ex_heap_copy:
  "map_sum id fst (copy_list_layout ex_heap
       (List_array_impl False (Arrow_proxy ''+l'' 3 0 [0, 1] [Arrow_proxy ''i'' 3 0 [2, 3] []])
         (Primitive_array INT32 (Arrow_proxy ''i'' 3 0 [2, 3] [])) (1, 0)))
   = Inr (List_array_impl False (Arrow_proxy ''+l'' 3 0 [4, 5] [Arrow_proxy ''i'' 3 0 [6, 7] []])
         (Primitive_array INT32 (Arrow_proxy ''i'' 3 0 [6, 7] [])) (5, 0))"
  by (simp add: ex_heap_def alloc_def make_flat_array_def make_list_offsets_def
      OFFSET_BUFFER_INDEX_def)

text \<open>
  The list array \<open>[[1,2],[],[3]]\<close> in the example heap: its copy lives in the new buffers
  4 to 7 with the offsets pointer into buffer 5, and overwriting an offset or the
  validity byte of the copy leaves the last range and the validity of the original.
\<close>

theorem list_layout_copy_independent_witness:
  "constructed (List_array_impl False (Arrow_proxy ''+l'' 3 0 [0, 1] [Arrow_proxy ''i'' 3 0 [2, 3] []])
         (Primitive_array INT32 (Arrow_proxy ''i'' 3 0 [2, 3] [])) (1, 0))
 \<and> allocated ex_heap (Arrow_proxy ''+l'' 3 0 [0, 1] [Arrow_proxy ''i'' 3 0 [2, 3] []])
 \<and> (\<exists>h'. copy_list_layout ex_heap
       (List_array_impl False (Arrow_proxy ''+l'' 3 0 [0, 1] [Arrow_proxy ''i'' 3 0 [2, 3] []])
         (Primitive_array INT32 (Arrow_proxy ''i'' 3 0 [2, 3] [])) (1, 0))
     = Inr (List_array_impl False (Arrow_proxy ''+l'' 3 0 [4, 5] [Arrow_proxy ''i'' 3 0 [6, 7] []])
         (Primitive_array INT32 (Arrow_proxy ''i'' 3 0 [6, 7] [])) (5, 0), h')
   \<and> offset_range h'
        (List_array_impl False (Arrow_proxy ''+l'' 3 0 [4, 5] [Arrow_proxy ''i'' 3 0 [6, 7] []])
         (Primitive_array INT32 (Arrow_proxy ''i'' 3 0 [6, 7] [])) (5, 0)) 2 = Inr (2, 3)
   \<and> value_list (store_byte h' 5 8 9)
        (List_array_impl False (Arrow_proxy ''+l'' 3 0 [0, 1] [Arrow_proxy ''i'' 3 0 [2, 3] []])
         (Primitive_array INT32 (Arrow_proxy ''i'' 3 0 [2, 3] [])) (1, 0)) 2
       = Inr (List_value (Primitive_array INT32 (Arrow_proxy ''i'' 3 0 [2, 3] [])) 2 3)
   \<and> has_value_list (store_byte h' 4 0 0)
        (List_array_impl False (Arrow_proxy ''+l'' 3 0 [0, 1] [Arrow_proxy ''i'' 3 0 [2, 3] []])
         (Primitive_array INT32 (Arrow_proxy ''i'' 3 0 [2, 3] [])) (1, 0)) 1 = Inr True)"
proof -
  let ?c = "Arrow_proxy ''i'' 3 0 [2, 3] []"
  let ?p = "Arrow_proxy ''+l'' 3 0 [0, 1] [?c]"
  let ?a = "List_array_impl False ?p (Primitive_array INT32 ?c) (1, 0)"
  let ?b = "List_array_impl False (Arrow_proxy ''+l'' 3 0 [4, 5] [Arrow_proxy ''i'' 3 0 [6, 7] []])
         (Primitive_array INT32 (Arrow_proxy ''i'' 3 0 [6, 7] [])) (5, 0)"
  have "list_array_impl False ?p = Inr ?a"
    by (simp add: list_array_impl_def list_array_impl_from_def make_flat_array_def
        make_list_offsets_def OFFSET_BUFFER_INDEX_def)
  then have k: "constructed ?a" by (simp add: constructed_def)
  have al: "allocated ex_heap (get_arrow_proxy ?a)" by (simp add: allocated_def ex_heap_def)
  have v: "offset_range ex_heap ?a 2 = Inr (2, 3)"
    by (simp add: ptr_index_def load_unsigned_def offset_width_def ex_heap_def)
  have hv: "has_value_list ex_heap ?a 1 = Inr True"
    by (simp add: has_value_list_def list_layout_size_def ex_heap_def block_index_def
        bit_index_def bits_per_block_def bit_numeral_Bit0_Suc_iff bit_numeral_Bit1_Suc_iff)
  from list_layout_copy_independent [OF k al]
  obtain b h' where r: "copy_list_layout ex_heap ?a = Inr (b, h')"
    "\<forall>i. offset_range h' b i = offset_range ex_heap ?a i
            \<and> has_value_list h' b i = has_value_list ex_heap ?a i"
    "\<forall>x \<in> set (proxy_addrs (get_arrow_proxy b)). \<forall>pos v.
          (\<forall>i. value_list (store_byte h' x pos v) ?a i = value_list ex_heap ?a i
             \<and> has_value_list (store_byte h' x pos v) ?a i = has_value_list ex_heap ?a i)"
    by blast
  from r(1) ex_heap_copy have b: "b = ?b" by simp
  from r(2) b v have 1: "offset_range h' ?b 2 = Inr (2, 3)" by simp
  have "5 \<in> set (proxy_addrs (get_arrow_proxy ?b))" "4 \<in> set (proxy_addrs (get_arrow_proxy ?b))"
    by simp_all
  with r(3) b have 2: "value_list (store_byte h' 5 8 9) ?a 2 = value_list ex_heap ?a 2"
    and 3: "has_value_list (store_byte h' 4 0 0) ?a 1 = has_value_list ex_heap ?a 1"
    by blast+
  from v have "value_list ex_heap ?a 2 = Inr (List_value (Primitive_array INT32 ?c) 2 3)"
    by (simp add: value_list_def)
  with k al r(1) b 1 2 3 hv show ?thesis by simp
qed

end
